theory Spec2Isabelle
  imports Main "HOL-Library.Word"
begin

section \<open>JavaScript strings\<close>

text \<open>
  A JavaScript string is a sequence of code units, compared by \<open>===\<close> element by element
  and by \<open><\<close> lexicographically on the numeric value of the code units. Strings are
  modelled as \<open>string\<close> (lists of \<open>char\<close>); every alphabet and pattern of the program is
  ASCII. \<open>toUpperCase\<close> is modelled on that repertoire: the letters a to z are mapped to
  A to Z and every other character is left as it is.
\<close>

definition code_unit :: "char \<Rightarrow> nat" where
  "code_unit c = of_char c"

fun js_lt :: "string \<Rightarrow> string \<Rightarrow> bool" where
  "js_lt [] [] = False"
| "js_lt [] (y # ys) = True"
| "js_lt (x # xs) [] = False"
| "js_lt (x # xs) (y # ys) =
     (if code_unit x < code_unit y then True
      else if code_unit y < code_unit x then False
      else js_lt xs ys)"

definition toUpperCase_char :: "char \<Rightarrow> char" where
  "toUpperCase_char c =
     (case map_of (zip ''abcdefghijklmnopqrstuvwxyz'' ''ABCDEFGHIJKLMNOPQRSTUVWXYZ'') c of
        Some u \<Rightarrow> u
      | None \<Rightarrow> c)"

definition toUpperCase :: "string \<Rightarrow> string" where
  "toUpperCase s = map toUpperCase_char s"

fun startsWith :: "string \<Rightarrow> string \<Rightarrow> bool" where
  "startsWith s [] = True"
| "startsWith [] (p # ps) = False"
| "startsWith (c # s) (p # ps) = (c = p \<and> startsWith s ps)"

text \<open>\<open>String.prototype.indexOf\<close>: the position of the first occurrence of a substring,
  or \<open>-1\<close>.\<close>

fun indexOf_from :: "nat \<Rightarrow> string \<Rightarrow> string \<Rightarrow> int" where
  "indexOf_from i [] pat = (if pat = [] then int i else - 1)"
| "indexOf_from i (c # s) pat =
     (if startsWith (c # s) pat then int i else indexOf_from (Suc i) s pat)"

definition indexOf :: "string \<Rightarrow> string \<Rightarrow> int" where
  "indexOf s pat = indexOf_from 0 s pat"

section \<open>ULID constants\<close>

definition ENCODING :: string where
  "ENCODING = ''0123456789ABCDEFGHJKMNPQRSTVWXYZ''"

definition TIME_LENGTH :: nat where
  "TIME_LENGTH = 10"

definition RANDOM_LENGTH :: nat where
  "RANDOM_LENGTH = 16"

definition ULID_LENGTH :: nat where
  "ULID_LENGTH = TIME_LENGTH + RANDOM_LENGTH"

definition TIME_MAX :: int where
  "TIME_MAX = 2 ^ 48 - 1"

section \<open>Errors\<close>

text \<open>
  Every \<open>throw\<close> of the source is a value \<open>Inl e\<close>. \<open>RangeError\<close> carries the rejected
  timestamp, \<open>InvalidCharacter\<close> and \<open>InvalidUlid\<close> the rejected text, \<open>UrnError\<close> the error
  code and the offending value (the message text is not modelled). \<open>TypeError\<close> is what
  JavaScript raises when a method is called on \<open>undefined\<close>.
\<close>

datatype urn_code = INVALID_APP | INVALID_ENTITY | INVALID_URN | PARSE_ERROR

datatype error =
    RangeError int
  | InvalidCharacter string
  | InvalidUlid string
  | TypeError
  | UrnError urn_code string

section \<open>Base32 codec (id/ulid/encoding)\<close>

text \<open>
  Timestamps are JavaScript numbers holding integers; all arithmetic on them stays below
  \<open>2 ^ 53\<close> and is exact, so they are modelled as \<open>int\<close>. The loop of \<open>encodeTime\<close> counts
  \<open>i\<close> from \<open>length\<close> down to 1; the range check comes first, so \<open>remaining\<close> is never
  negative when the loop runs.
\<close>

fun encodeTime_loop :: "nat \<Rightarrow> int \<Rightarrow> string \<Rightarrow> string" where
  "encodeTime_loop 0 remaining str = str"
| "encodeTime_loop (Suc i) remaining str =
     encodeTime_loop i (remaining div 32) (ENCODING ! nat (remaining mod 32) # str)"

definition encodeTime :: "int \<Rightarrow> nat \<Rightarrow> error + string" where
  "encodeTime timestamp len =
     (if timestamp < 0 \<or> timestamp > TIME_MAX then Inl (RangeError timestamp)
      else Inr (encodeTime_loop len timestamp []))"

text \<open>
  \<open>getRandomValues\<close> fills a \<open>Uint8Array\<close> from the random source; the buffer it returns
  is a parameter of the model, \<open>bytes i\<close> being its element \<open>i\<close>.
\<close>

definition encodeRandom :: "nat \<Rightarrow> (nat \<Rightarrow> 8 word) \<Rightarrow> string" where
  "encodeRandom len bytes = map (\<lambda>i. ENCODING ! (unat (bytes i) mod 32)) [0..<len]"

definition decodeChar :: "string \<Rightarrow> error + int" where
  "decodeChar char =
     (let upper = toUpperCase char in
      if upper = ''I'' \<or> upper = ''L'' then Inr 1
      else if upper = ''O'' then Inr 0
      else if upper = ''U'' then Inr 27
      else
        (let index = indexOf ENCODING upper in
         if index = - 1 then Inl (InvalidCharacter char) else Inr index))"

text \<open>
  \<open>decodeTime\<close> reads \<open>timeChars[i]\<close> for \<open>i\<close> from 0 to 9. Beyond the end of the string
  the read is \<open>undefined\<close>, and \<open>decodeChar\<close> then fails with a \<open>TypeError\<close>.
\<close>

fun decodeTime_loop :: "string \<Rightarrow> nat \<Rightarrow> nat \<Rightarrow> int \<Rightarrow> error + int" where
  "decodeTime_loop timeChars i 0 timestamp = Inr timestamp"
| "decodeTime_loop timeChars i (Suc n) timestamp =
     (if i < length timeChars then
        (case decodeChar [timeChars ! i] of
           Inl e \<Rightarrow> Inl e
         | Inr d \<Rightarrow> decodeTime_loop timeChars (Suc i) n (timestamp * 32 + d))
      else Inl TypeError)"

definition decodeTime :: "string \<Rightarrow> error + int" where
  "decodeTime ulid = decodeTime_loop (take TIME_LENGTH ulid) 0 TIME_LENGTH 0"

section \<open>Ulid (id/ulid/api)\<close>

text \<open>
  \<open>Ulid.generate\<close> reads the clock only when no timestamp is given; the clock value
  \<open>now\<close> and the random buffer are parameters.
\<close>

definition Ulid_generate :: "int option \<Rightarrow> int \<Rightarrow> (nat \<Rightarrow> 8 word) \<Rightarrow> error + string" where
  "Ulid_generate timestamp now bytes =
     (let time = (case timestamp of Some t \<Rightarrow> t | None \<Rightarrow> now) in
      case encodeTime time TIME_LENGTH of
        Inl e \<Rightarrow> Inl e
      | Inr s \<Rightarrow> Inr (s @ encodeRandom RANDOM_LENGTH bytes))"

definition Ulid_timestamp :: "string \<Rightarrow> error + int" where
  "Ulid_timestamp ulid = decodeTime ulid"

definition Ulid_compare :: "string \<Rightarrow> string \<Rightarrow> int" where
  "Ulid_compare a b = (if a = b then 0 else if js_lt a b then - 1 else 1)"

section \<open>Canonical identifiers\<close>

text \<open>A string is canonical when each of its characters is one of the 32 symbols of the
  alphabet, as the encoders write them (upper case, no confusable letters).\<close>

definition canonical :: "string \<Rightarrow> bool" where
  "canonical s = list_all (\<lambda>c. c \<in> set ENCODING) s"

text \<open>The integer a string of alphabet symbols stands for, most significant first.\<close>

definition b32val :: "string \<Rightarrow> int" where
  "b32val s = foldl (\<lambda>a c. a * 32 + indexOf ENCODING [c]) 0 s"

section \<open>Regular expressions\<close>

text \<open>
  The patterns of the program are anchored sequences of quantified character classes,
  \<open>^ C1{m1,n1} C2{m2,n2} ... $\<close>. A class is a list of ranges and single characters; an
  atom is a class with its least and greatest number of repetitions. \<open>RegExp.test\<close>
  succeeds when the whole string can be divided among the atoms. With the \<open>i\<close> flag a
  character matches a class when a member of the class has the same canonical form;
  on the ASCII repertoire the characters with the canonical form of \<open>c\<close> are \<open>c\<close>, its
  upper case and its lower case.
\<close>

datatype class_item = Rng char char | Chr char

record regexp =
  atoms :: "(class_item list \<times> nat \<times> nat) list"
  ignoreCase :: bool

definition toLowerCase_char :: "char \<Rightarrow> char" where
  "toLowerCase_char c =
     (case map_of (zip ''ABCDEFGHIJKLMNOPQRSTUVWXYZ'' ''abcdefghijklmnopqrstuvwxyz'') c of
        Some l \<Rightarrow> l
      | None \<Rightarrow> c)"

fun member_item :: "class_item \<Rightarrow> char \<Rightarrow> bool" where
  "member_item (Rng lo hi) c = (code_unit lo \<le> code_unit c \<and> code_unit c \<le> code_unit hi)"
| "member_item (Chr a) c = (c = a)"

definition in_class :: "bool \<Rightarrow> class_item list \<Rightarrow> char \<Rightarrow> bool" where
  "in_class ic cls c =
     list_ex (\<lambda>it. member_item it c \<or>
                    (ic \<and> (member_item it (toUpperCase_char c) \<or>
                            member_item it (toLowerCase_char c)))) cls"

fun match_atoms :: "bool \<Rightarrow> (class_item list \<times> nat \<times> nat) list \<Rightarrow> string \<Rightarrow> bool" where
  "match_atoms ic [] s = (s = [])"
| "match_atoms ic ((cls, lo, hi) # r) s =
     (\<exists>k \<in> set [lo..<Suc hi].
        k \<le> length s \<and> list_all (in_class ic cls) (take k s) \<and> match_atoms ic r (drop k s))"

definition test :: "regexp \<Rightarrow> string \<Rightarrow> bool" where
  "test re s = match_atoms (ignoreCase re) (atoms re) s"

text \<open>\<open>ULID_PATTERN = /^[0-9A-HJKMNP-TV-Z]{26}$/i\<close>\<close>

definition ULID_PATTERN :: regexp where
  "ULID_PATTERN =
     \<lparr>atoms = [([Rng CHR ''0'' CHR ''9'', Rng CHR ''A'' CHR ''H'', Chr CHR ''J'', Chr CHR ''K'',
                 Chr CHR ''M'', Chr CHR ''N'', Rng CHR ''P'' CHR ''T'', Rng CHR ''V'' CHR ''Z''],
                26, 26)],
      ignoreCase = True\<rparr>"

definition Ulid_isValid :: "string \<Rightarrow> bool" where
  "Ulid_isValid v = test ULID_PATTERN v"

definition Ulid_parse :: "string \<Rightarrow> error + string" where
  "Ulid_parse v = (if \<not> Ulid_isValid v then Inl (InvalidUlid v) else Inr v)"

section \<open>The monotonic generator (Ulid.monotonic)\<close>

text \<open>
  The closure returned by \<open>Ulid.monotonic\<close> owns two variables. A call reads the clock,
  updates them and then encodes the time, so the state is already changed when
  \<open>encodeTime\<close> throws: a call returns the new state together with its result. The
  second argument of \<open>increment_loop\<close> is the loop variable plus one (the loop runs while
  \<open>i \<ge> 0\<close>); \<open>break\<close> is the branch without a recursive call.
\<close>

record mono_state =
  lastTime :: int
  lastRandom :: string

definition monotonic_init :: mono_state where
  "monotonic_init = \<lparr>lastTime = 0, lastRandom = []\<rparr>"

fun increment_loop :: "string \<Rightarrow> nat \<Rightarrow> string" where
  "increment_loop chars 0 = chars"
| "increment_loop chars (Suc i) =
     (let index = indexOf ENCODING [chars ! i] in
      if index < 31 then chars[i := ENCODING ! nat (index + 1)]
      else increment_loop (chars[i := ENCODING ! 0]) i)"

definition monotonic_next ::
    "mono_state \<Rightarrow> int \<Rightarrow> (nat \<Rightarrow> 8 word) \<Rightarrow> mono_state \<times> (error + string)" where
  "monotonic_next st now bytes =
     (let st' =
        (if now = lastTime st
         then st\<lparr>lastRandom := increment_loop (lastRandom st) (length (lastRandom st))\<rparr>
         else \<lparr>lastTime = now, lastRandom = encodeRandom RANDOM_LENGTH bytes\<rparr>)
      in (st', case encodeTime now TIME_LENGTH of
                 Inl e \<Rightarrow> Inl e
               | Inr t \<Rightarrow> Inr (t @ lastRandom st')))"

text \<open>Successive calls on one generator: each call gets its clock read and the buffer
  the random source would fill.\<close>

fun monotonic_run ::
    "mono_state \<Rightarrow> (int \<times> (nat \<Rightarrow> 8 word)) list \<Rightarrow> (error + string) list" where
  "monotonic_run st [] = []"
| "monotonic_run st ((now, bytes) # calls) =
     snd (monotonic_next st now bytes) # monotonic_run (fst (monotonic_next st now bytes)) calls"

section \<open>Urn (id/urn)\<close>

text \<open>\<open>APP_PATTERN = /^[a-z][a-z0-9]{0,31}$/\<close>\<close>

definition APP_PATTERN :: regexp where
  "APP_PATTERN =
     \<lparr>atoms = [([Rng CHR ''a'' CHR ''z''], 1, 1),
               ([Rng CHR ''a'' CHR ''z'', Rng CHR ''0'' CHR ''9''], 0, 31)],
      ignoreCase = False\<rparr>"

text \<open>\<open>ENTITY_PATTERN = /^[a-z][a-z0-9-]{0,63}$/\<close>\<close>

definition ENTITY_PATTERN :: regexp where
  "ENTITY_PATTERN =
     \<lparr>atoms = [([Rng CHR ''a'' CHR ''z''], 1, 1),
               ([Rng CHR ''a'' CHR ''z'', Rng CHR ''0'' CHR ''9'', Chr CHR ''-''], 0, 63)],
      ignoreCase = False\<rparr>"

text \<open>
  \<open>URN_PATTERN\<close> is built from the text
  \<open>^[a-z][a-z0-9]{0,31}:[a-z][a-z0-9-]{0,63}:\<close>, the source of \<open>ULID_PATTERN\<close> without
  its anchors, and \<open>$\<close>, with the flag \<open>i\<close> for the whole expression.
\<close>

definition URN_PATTERN :: regexp where
  "URN_PATTERN =
     \<lparr>atoms = [([Rng CHR ''a'' CHR ''z''], 1, 1),
               ([Rng CHR ''a'' CHR ''z'', Rng CHR ''0'' CHR ''9''], 0, 31),
               ([Chr CHR '':''], 1, 1),
               ([Rng CHR ''a'' CHR ''z''], 1, 1),
               ([Rng CHR ''a'' CHR ''z'', Rng CHR ''0'' CHR ''9'', Chr CHR ''-''], 0, 63),
               ([Chr CHR '':''], 1, 1)] @ atoms ULID_PATTERN,
      ignoreCase = True\<rparr>"

record UrnCreateOptions =
  opt_timestamp :: "int option"
  opt_id :: "string option"

text \<open>The components \<open>parse\<close> returns; a field is \<open>None\<close> where destructuring reads past
  the end of the array and yields \<open>undefined\<close>. The field \<open>id\<close> is written \<open>id'\<close>.\<close>

record UrnComponents =
  app :: "string option"
  entity :: "string option"
  id' :: "string option"

text \<open>\<open>String.prototype.split\<close> with a one-character separator.\<close>

fun split :: "char \<Rightarrow> string \<Rightarrow> string list" where
  "split sep [] = [[]]"
| "split sep (c # s) =
     (if c = sep then [] # split sep s
      else (case split sep s of
              [] \<Rightarrow> [[c]]
            | p # ps \<Rightarrow> (c # p) # ps))"

definition nth_opt :: "'a list \<Rightarrow> nat \<Rightarrow> 'a option" where
  "nth_opt xs i = (if i < length xs then Some (xs ! i) else None)"

definition Urn_create ::
    "string \<Rightarrow> string \<Rightarrow> UrnCreateOptions option \<Rightarrow> int \<Rightarrow> (nat \<Rightarrow> 8 word) \<Rightarrow> error + string" where
  "Urn_create a e options now bytes =
     (if \<not> test APP_PATTERN a then Inl (UrnError INVALID_APP a)
      else if \<not> test ENTITY_PATTERN e then Inl (UrnError INVALID_ENTITY e)
      else
        (case (case options of None \<Rightarrow> None | Some opts \<Rightarrow> opt_id opts) of
           Some i \<Rightarrow> Inr (a @ '':'' @ e @ '':'' @ i)
         | None \<Rightarrow>
             (case Ulid_generate (case options of None \<Rightarrow> None | Some opts \<Rightarrow> opt_timestamp opts)
                     now bytes of
                Inl err \<Rightarrow> Inl err
              | Inr i \<Rightarrow> Inr (a @ '':'' @ e @ '':'' @ i))))"

definition Urn_isValid :: "string \<Rightarrow> bool" where
  "Urn_isValid v = test URN_PATTERN v"

definition Urn_parse :: "string \<Rightarrow> error + UrnComponents" where
  "Urn_parse urn =
     (if \<not> Urn_isValid urn then Inl (UrnError INVALID_URN urn)
      else
        (let parts = split CHR '':'' urn in
         Inr \<lparr>app = nth_opt parts 0, entity = nth_opt parts 1, id' = nth_opt parts 2\<rparr>))"

section \<open>The name grammars in the words of the specification\<close>

text \<open>
  The specification describes an app name as a lower-case letter followed by at most 31
  lower-case letters or digits, and an entity name as a lower-case letter followed by at
  most 63 lower-case letters, digits or hyphens. These predicates say so directly; they
  are compared with the regular expressions of the source below.
\<close>

definition is_lower :: "char \<Rightarrow> bool" where
  "is_lower c = (code_unit CHR ''a'' \<le> code_unit c \<and> code_unit c \<le> code_unit CHR ''z'')"

definition is_digit :: "char \<Rightarrow> bool" where
  "is_digit c = (code_unit CHR ''0'' \<le> code_unit c \<and> code_unit c \<le> code_unit CHR ''9'')"

definition spec_app_name :: "string \<Rightarrow> bool" where
  "spec_app_name s =
     (case s of
        [] \<Rightarrow> False
      | c # r \<Rightarrow> is_lower c \<and> length r \<le> 31 \<and> list_all (\<lambda>x. is_lower x \<or> is_digit x) r)"

definition spec_entity_name :: "string \<Rightarrow> bool" where
  "spec_entity_name s =
     (case s of
        [] \<Rightarrow> False
      | c # r \<Rightarrow> is_lower c \<and> length r \<le> 63 \<and>
                 list_all (\<lambda>x. is_lower x \<or> is_digit x \<or> x = CHR ''-'') r)"

section \<open>The alphabet\<close>

lemma ENCODING_length: "length ENCODING = 32"
  by (simp add: ENCODING_def)

lemma ENCODING_distinct: "distinct ENCODING"
  by (simp add: ENCODING_def)

lemma ENCODING_increasing: "sorted_wrt (\<lambda>a b. code_unit a < code_unit b) ENCODING"
  by (simp add: ENCODING_def code_unit_def)

lemma startsWith_single: "startsWith s [u] = (s \<noteq> [] \<and> hd s = u)"
  by (cases s) auto

lemma indexOf_from_single:
  "indexOf_from i s [u] =
     (if u \<in> set s then int (i + length (takeWhile (\<lambda>x. x \<noteq> u) s)) else - 1)"
  by (induction s arbitrary: i) (auto simp: startsWith_single)

lemma indexOf_single:
  "indexOf s [u] = (if u \<in> set s then int (length (takeWhile (\<lambda>x. x \<noteq> u) s)) else - 1)"
  by (simp add: indexOf_def indexOf_from_single)

lemma takeWhile_neq_nth:
  "distinct xs \<Longrightarrow> i < length xs \<Longrightarrow> takeWhile (\<lambda>x. x \<noteq> xs ! i) xs = take i xs"
proof (induction xs arbitrary: i)
  case Nil
  then show ?case by simp
next
  case (Cons a xs)
  show ?case
  proof (cases i)
    case 0
    then show ?thesis by simp
  next
    case (Suc j)
    with Cons.prems have "a \<noteq> xs ! j" by auto
    with Suc Cons show ?thesis by simp
  qed
qed

lemma indexOf_ENCODING_nth:
  assumes "i < 32"
  shows "indexOf ENCODING [ENCODING ! i] = int i"
proof -
  have "ENCODING ! i \<in> set ENCODING"
    using assms by (simp add: ENCODING_length)
  moreover have "length (takeWhile (\<lambda>x. x \<noteq> ENCODING ! i) ENCODING) = i"
    using assms by (simp add: takeWhile_neq_nth ENCODING_distinct ENCODING_length)
  ultimately show ?thesis by (simp add: indexOf_single)
qed

lemma takeWhile_neq_member:
  "u \<in> set s \<Longrightarrow>
     length (takeWhile (\<lambda>x. x \<noteq> u) s) < length s \<and>
     s ! length (takeWhile (\<lambda>x. x \<noteq> u) s) = u"
  by (induction s) auto

lemma indexOf_ENCODING_range:
  "c \<in> set ENCODING \<Longrightarrow> 0 \<le> indexOf ENCODING [c] \<and> indexOf ENCODING [c] < 32"
  using takeWhile_neq_member [of c ENCODING]
  by (simp add: indexOf_single ENCODING_length)

lemma ENCODING_nth_indexOf:
  "c \<in> set ENCODING \<Longrightarrow> ENCODING ! nat (indexOf ENCODING [c]) = c"
  using takeWhile_neq_member [of c ENCODING]
  by (simp add: indexOf_single)

lemma ENCODING_upper_all: "list_all (\<lambda>c. toUpperCase_char c = c) ENCODING"
  by (simp add: ENCODING_def toUpperCase_char_def)

lemma ENCODING_upper: "c \<in> set ENCODING \<Longrightarrow> toUpperCase_char c = c"
  using ENCODING_upper_all by (simp add: list_all_iff)

lemma ENCODING_not_confusable_all:
  "list_all (\<lambda>c. c \<noteq> CHR ''I'' \<and> c \<noteq> CHR ''L'' \<and> c \<noteq> CHR ''O'' \<and> c \<noteq> CHR ''U'') ENCODING"
  by (simp add: ENCODING_def)

lemma ENCODING_not_confusable:
  "c \<in> set ENCODING \<Longrightarrow> c \<noteq> CHR ''I'' \<and> c \<noteq> CHR ''L'' \<and> c \<noteq> CHR ''O'' \<and> c \<noteq> CHR ''U''"
  using ENCODING_not_confusable_all by (simp add: list_all_iff)

lemma upper_fixed_all:
  "list_all (\<lambda>u. toUpperCase_char u = u) ''ABCDEFGHIJKLMNOPQRSTUVWXYZ''"
  by (simp add: toUpperCase_char_def)

lemma toUpperCase_char_idem: "toUpperCase_char (toUpperCase_char c) = toUpperCase_char c"
proof (cases "map_of (zip ''abcdefghijklmnopqrstuvwxyz'' ''ABCDEFGHIJKLMNOPQRSTUVWXYZ'') c")
  case None
  then show ?thesis by (simp add: toUpperCase_char_def)
next
  case (Some u)
  then have "u \<in> set ''ABCDEFGHIJKLMNOPQRSTUVWXYZ''"
    by (metis map_of_SomeD set_zip_rightD)
  then have "toUpperCase_char u = u"
    using upper_fixed_all by (simp only: list_all_iff)
  moreover from Some have "toUpperCase_char c = u"
    by (simp only: toUpperCase_char_def option.case)
  ultimately show ?thesis by simp
qed

lemma toUpperCase_single: "toUpperCase [c] = [toUpperCase_char c]"
  by (simp add: toUpperCase_def)

lemma decodeChar_single:
  "decodeChar [c] =
     (let u = toUpperCase_char c in
      if u = CHR ''I'' \<or> u = CHR ''L'' then Inr 1
      else if u = CHR ''O'' then Inr 0
      else if u = CHR ''U'' then Inr 27
      else if u \<in> set ENCODING then Inr (int (length (takeWhile (\<lambda>x. x \<noteq> u) ENCODING)))
      else Inl (InvalidCharacter [c]))"
  by (simp add: decodeChar_def toUpperCase_single indexOf_single Let_def)

lemma decodeChar_canonical:
  "c \<in> set ENCODING \<Longrightarrow> decodeChar [c] = Inr (indexOf ENCODING [c])"
  using ENCODING_not_confusable [of c]
  by (simp add: decodeChar_single ENCODING_upper indexOf_single)

lemma decodeTime_loop_canonical:
  "set xs \<subseteq> set ENCODING \<Longrightarrow> i + n \<le> length xs \<Longrightarrow>
   decodeTime_loop xs i n acc =
     Inr (foldl (\<lambda>a c. a * 32 + indexOf ENCODING [c]) acc (take n (drop i xs)))"
proof (induction n arbitrary: i acc)
  case 0
  then show ?case by simp
next
  case (Suc n)
  from Suc.prems have i: "i < length xs" by simp
  with Suc.prems have mem: "xs ! i \<in> set ENCODING" by auto
  have split: "take (Suc n) (drop i xs) = xs ! i # take n (drop (Suc i) xs)"
    using i by (simp add: Cons_nth_drop_Suc [symmetric])
  from Suc.prems have "Suc i + n \<le> length xs" by simp
  from Suc.IH [OF Suc.prems(1) this] show ?case
    using i mem by (simp add: decodeChar_canonical split)
qed

lemma encodeTime_loop_length: "length (encodeTime_loop n r str) = n + length str"
  by (induction n arbitrary: r str) auto

lemma ENCODING_nth_mem: "i < 32 \<Longrightarrow> ENCODING ! i \<in> set ENCODING"
  by (simp add: ENCODING_length)

lemma encodeTime_loop_set:
  "set (encodeTime_loop n r str) \<subseteq> set ENCODING \<union> set str"
proof (induction n arbitrary: r str)
  case 0
  then show ?case by simp
next
  case (Suc n)
  have "nat (r mod 32) < 32" by simp
  then have "ENCODING ! nat (r mod 32) \<in> set ENCODING" by (rule ENCODING_nth_mem)
  with Suc [of "r div 32" "ENCODING ! nat (r mod 32) # str"] show ?case by auto
qed

lemma encodeTime_loop_foldl:
  "0 \<le> r \<Longrightarrow>
   foldl (\<lambda>a c. a * 32 + indexOf ENCODING [c]) acc (encodeTime_loop n r str) =
   foldl (\<lambda>a c. a * 32 + indexOf ENCODING [c]) (acc * 32 ^ n + r mod 32 ^ n) str"
proof (induction n arbitrary: r str)
  case 0
  then show ?case by simp
next
  case (Suc n)
  have d: "indexOf ENCODING [ENCODING ! nat (r mod 32)] = r mod 32"
    using indexOf_ENCODING_nth [of "nat (r mod 32)"] by simp
  have "r mod (32 * 32 ^ n) = 32 * (r div 32 mod 32 ^ n) + r mod 32"
    by (simp add: zmod_zmult2_eq)
  then have e: "(acc * 32 ^ n + r div 32 mod 32 ^ n) * 32 + r mod 32 =
      acc * 32 ^ Suc n + r mod 32 ^ Suc n"
    by (simp add: algebra_simps)
  from Suc.prems have "0 \<le> r div 32" by simp
  from Suc.IH [OF this]
  have "foldl (\<lambda>a c. a * 32 + indexOf ENCODING [c]) acc (encodeTime_loop (Suc n) r str) =
      foldl (\<lambda>a c. a * 32 + indexOf ENCODING [c])
        ((acc * 32 ^ n + r div 32 mod 32 ^ n) * 32 + r mod 32) str"
    by (simp add: d)
  then show ?case by (simp only: e)
qed

lemma encodeTime_loop_digits:
  "0 \<le> r \<Longrightarrow>
   encodeTime_loop n r str =
     map (\<lambda>i. ENCODING ! nat ((r div 32 ^ (n - 1 - i)) mod 32)) [0..<n] @ str"
proof (induction n arbitrary: r str)
  case 0
  then show ?case by simp
next
  case (Suc n)
  from Suc.prems have r: "0 \<le> r div 32" by simp
  have "\<And>i. i < n \<Longrightarrow> r div 32 div 32 ^ (n - 1 - i) = r div 32 ^ (n - i)"
  proof -
    fix i assume "i < n"
    then have "n - i = Suc (n - 1 - i)" by simp
    then have "(32::int) ^ (n - i) = 32 * 32 ^ (n - 1 - i)" by simp
    then show "r div 32 div 32 ^ (n - 1 - i) = r div 32 ^ (n - i)"
      by (simp add: zdiv_zmult2_eq)
  qed
  then have "map (\<lambda>i. ENCODING ! nat ((r div 32 div 32 ^ (n - 1 - i)) mod 32)) [0..<n] =
      map (\<lambda>i. ENCODING ! nat ((r div 32 ^ (n - i)) mod 32)) [0..<n]"
    by simp
  with Suc.IH [OF r] show ?case by simp
qed


lemma TIME_MAX_lt: "TIME_MAX < 32 ^ 10"
  by (simp add: TIME_MAX_def)

lemma decodeTime_encodeTime_loop:
  assumes "0 \<le> t" "t < 32 ^ 10"
  shows "decodeTime (encodeTime_loop TIME_LENGTH t [] @ r) = Inr t"
proof -
  let ?e = "encodeTime_loop TIME_LENGTH t []"
  have len: "length ?e = 10"
    by (simp add: encodeTime_loop_length TIME_LENGTH_def)
  have canon: "set ?e \<subseteq> set ENCODING"
    using encodeTime_loop_set [of TIME_LENGTH t "[]"] by simp
  have "decodeTime (?e @ r) = decodeTime_loop ?e 0 10 0"
    using len by (simp add: decodeTime_def TIME_LENGTH_def)
  also have "\<dots> = Inr (foldl (\<lambda>a c. a * 32 + indexOf ENCODING [c]) 0 (take 10 (drop 0 ?e)))"
    using len by (intro decodeTime_loop_canonical [OF canon]) simp
  also have "take 10 (drop 0 ?e) = ?e"
    using len by simp
  also have "foldl (\<lambda>a c. a * 32 + indexOf ENCODING [c]) 0 ?e = t"
    using encodeTime_loop_foldl [OF assms(1), of 0 TIME_LENGTH "[]"] assms
    by (simp add: TIME_LENGTH_def)
  finally show ?thesis .
qed

lemma decodeChar_upper_aux:
  "toUpperCase_char d = u \<Longrightarrow> toUpperCase_char c = u \<Longrightarrow>
   (case decodeChar [c] of
      Inr v \<Rightarrow> decodeChar [d] = Inr v
    | Inl e \<Rightarrow> decodeChar [d] = Inl (InvalidCharacter [d]))"
  by (simp add: decodeChar_single Let_def)

section \<open>Codec: decoding, range check and round trip\<close>

text \<open>
  C9. \<open>decodeChar\<close> on a single character \<open>c\<close> is decided by the upper case \<open>u\<close> of \<open>c\<close>:
  1 when \<open>u\<close> is I or L, 0 when it is O, 27 when it is U, the position of \<open>u\<close> in the
  alphabet when \<open>u\<close> is one of its 32 symbols, and the invalid-character error carrying
  \<open>c\<close> in every other case. It is case-insensitive: \<open>c\<close> and its upper case decode to
  the same value, or both fail. The value of V is 27.
\<close>

theorem decodeChar_mapping:
  "decodeChar [c] =
     (let u = toUpperCase_char c in
      if u = CHR ''I'' \<or> u = CHR ''L'' then Inr 1
      else if u = CHR ''O'' then Inr 0
      else if u = CHR ''U'' then Inr 27
      else if u \<in> set ENCODING then Inr (int (length (takeWhile (\<lambda>x. x \<noteq> u) ENCODING)))
      else Inl (InvalidCharacter [c]))
   \<and> (case decodeChar [c] of
        Inr v \<Rightarrow> decodeChar [toUpperCase_char c] = Inr v
      | Inl e \<Rightarrow> decodeChar [toUpperCase_char c] = Inl (InvalidCharacter [toUpperCase_char c]))
   \<and> decodeChar ''V'' = Inr 27"
proof (intro conjI)
  show "decodeChar ''V'' = Inr 27"
    by code_simp
  show "case decodeChar [c] of
        Inr v \<Rightarrow> decodeChar [toUpperCase_char c] = Inr v
      | Inl e \<Rightarrow> decodeChar [toUpperCase_char c] = Inl (InvalidCharacter [toUpperCase_char c])"
    by (rule decodeChar_upper_aux [OF toUpperCase_char_idem refl])
qed (rule decodeChar_single)

text \<open>
  C8, as amended. \<open>encodeTime v w\<close> throws the \<open>RangeError\<close> exactly when \<open>v\<close> is negative
  or greater than \<open>2 ^ 48 - 1\<close>, whatever the width \<open>w\<close>; for every other \<open>v\<close> it returns
  \<open>w\<close> characters, the symbol at position \<open>i\<close> being the base-32 digit of \<open>v\<close> of weight
  \<open>32 ^ (w - 1 - i)\<close>: the \<open>w\<close> least significant digits, most significant first.
\<close>

theorem encodeTime_range_and_digits:
  "encodeTime v w =
     (if v < 0 \<or> 2 ^ 48 - 1 < v then Inl (RangeError v)
      else Inr (map (\<lambda>i. ENCODING ! nat ((v div 32 ^ (w - 1 - i)) mod 32)) [0..<w]))"
  by (simp add: encodeTime_def TIME_MAX_def encodeTime_loop_digits)

text \<open>
  C8 as stated ties the error to the width. With ten symbols every value up to
  \<open>32 ^ 10 - 1\<close> is representable, yet \<open>2 ^ 48\<close> is rejected; with two symbols 1024 is not
  representable, yet it is encoded, as its two low digits.
\<close>

theorem encodeTime_width_counterexample:
  "encodeTime (2 ^ 48) 10 = Inl (RangeError (2 ^ 48)) \<and> (2::int) ^ 48 \<le> 32 ^ 10 - 1
   \<and> encodeTime 1024 2 = Inr ''00'' \<and> (32::int) ^ 2 - 1 < 1024"
  by (simp add: encodeTime_def TIME_MAX_def ENCODING_def numeral_2_eq_2)

text \<open>
  C5. For every integer timestamp \<open>t\<close> with \<open>0 \<le> t \<le> 2 ^ 48 - 1\<close>, \<open>Ulid.generate t\<close>
  returns an identifier, whatever the clock and the random bytes, and \<open>Ulid.timestamp\<close>
  of that identifier is \<open>t\<close>.
\<close>

theorem timestamp_generate_roundtrip:
  assumes "0 \<le> t" and "t \<le> 2 ^ 48 - 1"
  shows "\<exists>u. Ulid_generate (Some t) now bytes = Inr u \<and> Ulid_timestamp u = Inr t"
proof -
  from assms have lt: "t < 32 ^ 10" by simp
  have "Ulid_generate (Some t) now bytes =
      Inr (encodeTime_loop TIME_LENGTH t [] @ encodeRandom RANDOM_LENGTH bytes)"
    using assms by (simp add: Ulid_generate_def encodeTime_def TIME_MAX_def)
  moreover have "Ulid_timestamp (encodeTime_loop TIME_LENGTH t [] @ encodeRandom RANDOM_LENGTH bytes) = Inr t"
    unfolding Ulid_timestamp_def by (rule decodeTime_encodeTime_loop [OF assms(1) lt])
  ultimately show ?thesis by blast
qed

theorem timestamp_generate_roundtrip_witness:
  "(0::int) \<le> 1469918176385 \<and> (1469918176385::int) \<le> 2 ^ 48 - 1 \<and>
   (\<exists>u. Ulid_generate (Some 1469918176385) 0 (\<lambda>i. 0) = Inr u \<and>
        Ulid_timestamp u = Inr 1469918176385)"
  using timestamp_generate_roundtrip [of 1469918176385 0 "\<lambda>i. 0"] by simp

section \<open>String order\<close>

lemma code_unit_inject: "code_unit x = code_unit y \<Longrightarrow> x = y"
  by (simp add: code_unit_def)

lemma js_lt_irrefl: "\<not> js_lt a a"
  by (induction a) auto

lemma js_lt_asym: "js_lt a b \<Longrightarrow> \<not> js_lt b a"
  by (induction a b rule: js_lt.induct) (auto split: if_splits)

lemma js_lt_total: "a \<noteq> b \<Longrightarrow> js_lt a b \<or> js_lt b a"
  by (induction a b rule: js_lt.induct) (auto dest: code_unit_inject)

lemma js_lt_trans: "js_lt a b \<Longrightarrow> js_lt b c \<Longrightarrow> js_lt a c"
proof (induction a arbitrary: b c)
  case Nil
  then show ?case by (cases b; cases c) auto
next
  case (Cons x xs)
  from Cons.prems obtain y ys where b: "b = y # ys" by (cases b) auto
  from Cons.prems b obtain z zs where c: "c = z # zs" by (cases c) auto
  show ?case
  proof (cases "code_unit x < code_unit z")
    case True
    then show ?thesis by (simp add: c)
  next
    case False
    with Cons.prems b c have "code_unit x = code_unit y" "code_unit y = code_unit z"
      by (auto split: if_splits)
    with Cons.prems b c have "js_lt xs ys" "js_lt ys zs"
      by (auto split: if_splits)
    then have "js_lt xs zs" by (rule Cons.IH)
    with \<open>code_unit x = code_unit y\<close> \<open>code_unit y = code_unit z\<close> show ?thesis
      by (simp add: c)
  qed
qed

lemma js_lt_append:
  "length p = length q \<Longrightarrow> js_lt (p @ r) (q @ s) = (if p = q then js_lt r s else js_lt p q)"
  by (induction p q rule: list_induct2) (auto dest: code_unit_inject)

section \<open>Values of digit strings\<close>

lemma canonical_iff: "canonical s = (set s \<subseteq> set ENCODING)"
  by (auto simp: canonical_def list_all_iff)

lemma foldl_b32:
  "foldl (\<lambda>a c. a * 32 + indexOf ENCODING [c]) acc xs = acc * 32 ^ length xs + b32val xs"
proof (induction xs arbitrary: acc)
  case Nil
  then show ?case by (simp add: b32val_def)
next
  case (Cons x xs)
  have "foldl (\<lambda>a c. a * 32 + indexOf ENCODING [c]) acc (x # xs) =
      (acc * 32 + indexOf ENCODING [x]) * 32 ^ length xs + b32val xs"
    by (simp add: Cons.IH)
  moreover have "b32val (x # xs) = indexOf ENCODING [x] * 32 ^ length xs + b32val xs"
    by (simp add: b32val_def Cons.IH [of "indexOf ENCODING [x]"])
  ultimately show ?case by (simp add: algebra_simps)
qed

lemma b32val_Nil: "b32val [] = 0"
  by (simp add: b32val_def)

lemma b32val_Cons: "b32val (x # xs) = indexOf ENCODING [x] * 32 ^ length xs + b32val xs"
  using foldl_b32 [of "indexOf ENCODING [x]" xs] by (simp add: b32val_def)

lemma b32val_snoc: "b32val (xs @ [x]) = b32val xs * 32 + indexOf ENCODING [x]"
  by (simp add: b32val_def)

lemma b32val_bounds: "canonical xs \<Longrightarrow> 0 \<le> b32val xs \<and> b32val xs < 32 ^ length xs"
proof (induction xs)
  case Nil
  then show ?case by (simp add: b32val_Nil)
next
  case (Cons x xs)
  define P :: int where "P = 32 ^ length xs"
  define d where "d = indexOf ENCODING [x]"
  from Cons have d: "0 \<le> d" "d \<le> 31"
    and IH: "0 \<le> b32val xs" "b32val xs < P"
    using indexOf_ENCODING_range [of x] by (auto simp: canonical_iff P_def d_def)
  have P: "0 \<le> P" by (simp add: P_def)
  have "d * P \<le> 31 * P" using d P by (intro mult_right_mono)
  moreover have "0 \<le> d * P" using d P by simp
  ultimately have "0 \<le> d * P + b32val xs \<and> d * P + b32val xs < 32 * P"
    using IH by linarith
  then show ?case by (simp add: b32val_Cons P_def d_def)
qed

lemma ENCODING_cases:
  assumes "c \<in> set ENCODING"
  obtains i where "i < 32" and "c = ENCODING ! i" and "indexOf ENCODING [c] = int i"
proof -
  from assms obtain i where i: "i < length ENCODING" and c: "ENCODING ! i = c"
    by (auto simp: in_set_conv_nth)
  from i have "i < 32" by (simp only: ENCODING_length)
  moreover from c have "c = ENCODING ! i" by (rule sym)
  moreover have "indexOf ENCODING [c] = int i"
    unfolding c [symmetric] using \<open>i < 32\<close> by (rule indexOf_ENCODING_nth)
  ultimately show thesis by (rule that)
qed

lemma ENCODING_nth_less:
  "a < b \<Longrightarrow> b < 32 \<Longrightarrow> code_unit (ENCODING ! a) < code_unit (ENCODING ! b)"
  using ENCODING_increasing by (simp add: sorted_wrt_iff_nth_less ENCODING_length)

lemma symbol_order:
  assumes "x \<in> set ENCODING" "y \<in> set ENCODING"
  shows "(code_unit x < code_unit y) = (indexOf ENCODING [x] < indexOf ENCODING [y])"
proof -
  from assms(1) obtain i where i: "i < 32" "x = ENCODING ! i" "indexOf ENCODING [x] = int i"
    by (rule ENCODING_cases)
  from assms(2) obtain j where j: "j < 32" "y = ENCODING ! j" "indexOf ENCODING [y] = int j"
    by (rule ENCODING_cases)
  have "(code_unit (ENCODING ! i) < code_unit (ENCODING ! j)) = (i < j)"
  proof (cases i j rule: linorder_cases)
    case less
    with ENCODING_nth_less [OF less j(1)] show ?thesis by simp
  next
    case equal
    then show ?thesis by simp
  next
    case greater
    with ENCODING_nth_less [OF greater i(1)] show ?thesis by simp
  qed
  moreover have "(indexOf ENCODING [x] < indexOf ENCODING [y]) = (i < j)"
    by (simp only: i(3) j(3) of_nat_less_iff)
  ultimately show ?thesis
    by (simp only: i(2) j(2))
qed

lemma js_lt_b32val:
  "length a = length b \<Longrightarrow> canonical a \<Longrightarrow> canonical b \<Longrightarrow> js_lt a b = (b32val a < b32val b)"
proof (induction a b rule: list_induct2)
  case Nil
  then show ?case by (simp add: b32val_Nil)
next
  case (Cons x xs y ys)
  then have cx: "x \<in> set ENCODING" and cy: "y \<in> set ENCODING"
    and cxs: "canonical xs" and cys: "canonical ys"
    by (auto simp: canonical_iff)
  define P :: int where "P = 32 ^ length ys"
  define dx where "dx = indexOf ENCODING [x]"
  define dy where "dy = indexOf ENCODING [y]"
  have len: "length xs = length ys" by fact
  have IH: "js_lt xs ys = (b32val xs < b32val ys)"
    by (rule Cons.IH [OF cxs cys])
  have vx: "0 \<le> b32val xs" "b32val xs < P"
    using b32val_bounds [OF cxs] by (simp_all add: P_def len)
  have vy: "0 \<le> b32val ys" "b32val ys < P"
    using b32val_bounds [OF cys] by (simp_all add: P_def)
  have P: "0 \<le> P" by (simp add: P_def)
  have valx: "b32val (x # xs) = dx * P + b32val xs"
    by (simp add: b32val_Cons P_def dx_def len)
  have valy: "b32val (y # ys) = dy * P + b32val ys"
    by (simp add: b32val_Cons P_def dy_def)
  consider (lt) "dx < dy" | (gt) "dy < dx" | (eq) "dx = dy"
    by linarith
  then show ?case
  proof cases
    case lt
    then have "dx + 1 \<le> dy" by simp
    then have "(dx + 1) * P \<le> dy * P" using P by (rule mult_right_mono)
    then have "dx * P + P \<le> dy * P" by (simp add: algebra_simps)
    then have "b32val (x # xs) < b32val (y # ys)"
      unfolding valx valy using vx vy by linarith
    moreover have "code_unit x < code_unit y"
      using lt symbol_order [OF cx cy] by (simp add: dx_def dy_def)
    ultimately show ?thesis by simp
  next
    case gt
    then have "dy + 1 \<le> dx" by simp
    then have "(dy + 1) * P \<le> dx * P" using P by (rule mult_right_mono)
    then have "dy * P + P \<le> dx * P" by (simp add: algebra_simps)
    then have "b32val (y # ys) < b32val (x # xs)"
      unfolding valx valy using vx vy by linarith
    moreover have "code_unit y < code_unit x"
      using gt symbol_order [OF cy cx] by (simp add: dx_def dy_def)
    ultimately show ?thesis by simp
  next
    case eq
    then have "\<not> code_unit x < code_unit y" "\<not> code_unit y < code_unit x"
      using symbol_order [OF cx cy] symbol_order [OF cy cx] by (auto simp: dx_def dy_def)
    moreover have "(b32val (x # xs) < b32val (y # ys)) = (b32val xs < b32val ys)"
      unfolding valx valy eq by simp
    ultimately show ?thesis using IH by simp
  qed
qed

lemma b32val_inject:
  assumes "length a = length b" "canonical a" "canonical b" "b32val a = b32val b"
  shows "a = b"
proof (rule ccontr)
  assume "a \<noteq> b"
  then have "js_lt a b \<or> js_lt b a" by (rule js_lt_total)
  then show False
    using js_lt_b32val [OF assms(1-3)] js_lt_b32val [OF assms(1) [symmetric] assms(3) assms(2)] assms(4)
    by auto
qed

lemma decodeTime_canonical:
  assumes "canonical a" "10 \<le> length a"
  shows "decodeTime a = Inr (b32val (take 10 a))"
proof -
  have sub: "set (take 10 a) \<subseteq> set ENCODING"
    using assms(1) set_take_subset [of 10 a] by (auto simp: canonical_iff)
  have len: "0 + 10 \<le> length (take 10 a)"
    using assms(2) by simp
  have "decodeTime a = decodeTime_loop (take 10 a) 0 10 0"
    by (simp add: decodeTime_def TIME_LENGTH_def)
  also have "\<dots> = Inr (foldl (\<lambda>a c. a * 32 + indexOf ENCODING [c]) 0
      (take 10 (drop 0 (take 10 a))))"
    by (rule decodeTime_loop_canonical [OF sub len])
  finally show ?thesis by (simp add: b32val_def)
qed

lemma Ulid_compare_less: "js_lt a b \<Longrightarrow> Ulid_compare a b = - 1"
  using js_lt_irrefl [of a] by (auto simp: Ulid_compare_def)

lemma Ulid_compare_flip: "Ulid_compare b a = - Ulid_compare a b"
  using js_lt_total [of a b] js_lt_asym [of a b] by (auto simp: Ulid_compare_def)

lemma Ulid_compare_less_iff: "(Ulid_compare a b = - 1) = js_lt a b"
  using js_lt_irrefl [of a] by (auto simp: Ulid_compare_def)

lemma canonical_take: "canonical a \<Longrightarrow> canonical (take n a)"
  using set_take_subset [of n a] by (auto simp: canonical_iff)

text \<open>
  C6. For canonical 26-character identifiers \<open>a\<close> and \<open>b\<close> both timestamps decode; a
  smaller timestamp gives \<open>compare a b = -1\<close>; with equal timestamps \<open>compare\<close> is the
  comparison of the two 16-character random portions; \<open>compare\<close> is 0 exactly on equal
  strings, antisymmetric and transitive. The alphabet is strictly increasing in
  character code, which the first two facts rest on.
\<close>

theorem compare_consistent_with_timestamp:
  assumes "canonical a" and "length a = 26" and "canonical b" and "length b = 26"
  shows "(\<exists>ta tb. Ulid_timestamp a = Inr ta \<and> Ulid_timestamp b = Inr tb \<and>
            (ta < tb \<longrightarrow> Ulid_compare a b = - 1) \<and>
            (ta = tb \<longrightarrow> Ulid_compare a b = Ulid_compare (drop 10 a) (drop 10 b)))
       \<and> Ulid_compare a a = 0
       \<and> (Ulid_compare a b = 0 \<longleftrightarrow> a = b)
       \<and> Ulid_compare b a = - Ulid_compare a b
       \<and> (\<forall>c. Ulid_compare a b = - 1 \<and> Ulid_compare b c = - 1 \<longrightarrow> Ulid_compare a c = - 1)
       \<and> sorted_wrt (\<lambda>x y. code_unit x < code_unit y) ENCODING"
proof -
  let ?pa = "take 10 a" and ?pb = "take 10 b"
  have ta: "Ulid_timestamp a = Inr (b32val ?pa)"
    unfolding Ulid_timestamp_def using assms(1,2) by (intro decodeTime_canonical) simp_all
  have tb: "Ulid_timestamp b = Inr (b32val ?pb)"
    unfolding Ulid_timestamp_def using assms(3,4) by (intro decodeTime_canonical) simp_all
  have len: "length ?pa = length ?pb"
    using assms(2,4) by simp
  have ord: "js_lt ?pa ?pb = (b32val ?pa < b32val ?pb)"
    using len canonical_take [OF assms(1)] canonical_take [OF assms(3)] by (rule js_lt_b32val)
  have split: "js_lt a b = (if ?pa = ?pb then js_lt (drop 10 a) (drop 10 b) else js_lt ?pa ?pb)"
    using js_lt_append [OF len, of "drop 10 a" "drop 10 b"] by simp
  have lt: "b32val ?pa < b32val ?pb \<longrightarrow> Ulid_compare a b = - 1"
  proof
    assume less: "b32val ?pa < b32val ?pb"
    then have "?pa \<noteq> ?pb" by auto
    with less ord split have "js_lt a b" by simp
    then show "Ulid_compare a b = - 1" by (rule Ulid_compare_less)
  qed
  have eq: "b32val ?pa = b32val ?pb \<longrightarrow> Ulid_compare a b = Ulid_compare (drop 10 a) (drop 10 b)"
  proof
    assume "b32val ?pa = b32val ?pb"
    with len canonical_take [OF assms(1)] canonical_take [OF assms(3)]
    have same: "?pa = ?pb" by (rule b32val_inject)
    then have "a = b \<longleftrightarrow> drop 10 a = drop 10 b"
      by (metis append_take_drop_id)
    with same split show "Ulid_compare a b = Ulid_compare (drop 10 a) (drop 10 b)"
      by (simp add: Ulid_compare_def)
  qed
  have trans: "\<forall>c. Ulid_compare a b = - 1 \<and> Ulid_compare b c = - 1 \<longrightarrow> Ulid_compare a c = - 1"
    unfolding Ulid_compare_less_iff using js_lt_trans by blast
  have zero: "Ulid_compare a b = 0 \<longleftrightarrow> a = b"
    by (simp add: Ulid_compare_def)
  have refl: "Ulid_compare a a = 0"
    by (simp add: Ulid_compare_def)
  from ta tb lt eq have first: "\<exists>ta tb. Ulid_timestamp a = Inr ta \<and> Ulid_timestamp b = Inr tb \<and>
            (ta < tb \<longrightarrow> Ulid_compare a b = - 1) \<and>
            (ta = tb \<longrightarrow> Ulid_compare a b = Ulid_compare (drop 10 a) (drop 10 b))"
    by blast
  from first refl zero Ulid_compare_flip [of b a] trans ENCODING_increasing
  show ?thesis by blast
qed

theorem compare_consistent_with_timestamp_witness:
  "canonical ''01ARZ3NDEKTSV4RRFFQ69G5FAV'' \<and> length ''01ARZ3NDEKTSV4RRFFQ69G5FAV'' = 26 \<and>
   canonical ''01BX5ZZKBKACTAV9WEVGEMMVRZ'' \<and> length ''01BX5ZZKBKACTAV9WEVGEMMVRZ'' = 26 \<and>
   Ulid_timestamp ''01ARZ3NDEKTSV4RRFFQ69G5FAV'' = Inr 1469922850259 \<and>
   Ulid_timestamp ''01BX5ZZKBKACTAV9WEVGEMMVRZ'' = Inr 1508808576371 \<and>
   Ulid_compare ''01ARZ3NDEKTSV4RRFFQ69G5FAV'' ''01BX5ZZKBKACTAV9WEVGEMMVRZ'' = - 1"
proof -
  have a: "canonical ''01ARZ3NDEKTSV4RRFFQ69G5FAV''" by code_simp
  have b: "canonical ''01BX5ZZKBKACTAV9WEVGEMMVRZ''" by code_simp
  have la: "length ''01ARZ3NDEKTSV4RRFFQ69G5FAV'' = 26" by simp
  have lb: "length ''01BX5ZZKBKACTAV9WEVGEMMVRZ'' = 26" by simp
  have ta: "Ulid_timestamp ''01ARZ3NDEKTSV4RRFFQ69G5FAV'' = Inr 1469922850259" by code_simp
  have tb: "Ulid_timestamp ''01BX5ZZKBKACTAV9WEVGEMMVRZ'' = Inr 1508808576371" by code_simp
  from compare_consistent_with_timestamp [OF a la b lb] ta tb
  have "Ulid_compare ''01ARZ3NDEKTSV4RRFFQ69G5FAV'' ''01BX5ZZKBKACTAV9WEVGEMMVRZ'' = - 1"
    by auto
  with a b la lb ta tb show ?thesis by blast
qed

section \<open>The monotonic generator\<close>

lemma encodeRandom_length: "length (encodeRandom n bytes) = n"
  by (simp add: encodeRandom_def)

lemma encodeRandom_canonical: "canonical (encodeRandom n bytes)"
  by (auto simp: canonical_iff encodeRandom_def intro: ENCODING_nth_mem)

lemma encodeTime_in_range:
  assumes "0 \<le> t" "t \<le> TIME_MAX"
  shows "encodeTime t TIME_LENGTH = Inr (encodeTime_loop TIME_LENGTH t [])"
    and "length (encodeTime_loop TIME_LENGTH t []) = 10"
    and "canonical (encodeTime_loop TIME_LENGTH t [])"
    and "b32val (encodeTime_loop TIME_LENGTH t []) = t"
proof -
  show "encodeTime t TIME_LENGTH = Inr (encodeTime_loop TIME_LENGTH t [])"
    using assms by (simp add: encodeTime_def)
  show "length (encodeTime_loop TIME_LENGTH t []) = 10"
    by (simp add: encodeTime_loop_length TIME_LENGTH_def)
  show "canonical (encodeTime_loop TIME_LENGTH t [])"
    using encodeTime_loop_set [of TIME_LENGTH t "[]"] by (simp add: canonical_iff)
  have "t < 32 ^ 10" using assms(2) TIME_MAX_lt by simp
  then show "b32val (encodeTime_loop TIME_LENGTH t []) = t"
    using encodeTime_loop_foldl [OF assms(1), of 0 TIME_LENGTH "[]"] assms(1)
    by (simp add: b32val_def TIME_LENGTH_def)
qed

lemma canonical_append: "canonical (xs @ ys) = (canonical xs \<and> canonical ys)"
  by (auto simp: canonical_iff)

lemma increment_loop_spec:
  "canonical xs \<Longrightarrow>
   \<exists>xs'. increment_loop (xs @ ys) (length xs) = xs' @ ys \<and> length xs' = length xs \<and>
         canonical xs' \<and> b32val xs' = (b32val xs + 1) mod 32 ^ length xs"
proof (induction xs arbitrary: ys rule: rev_induct)
  case Nil
  then show ?case by (simp add: b32val_Nil canonical_def)
next
  case (snoc x xs)
  from snoc.prems have cxs: "canonical xs" and cx: "x \<in> set ENCODING"
    by (auto simp: canonical_iff)
  from cx obtain i where i: "i < 32" "x = ENCODING ! i" "indexOf ENCODING [x] = int i"
    by (rule ENCODING_cases)
  define P :: int where "P = 32 ^ length xs"
  have v: "0 \<le> b32val xs" "b32val xs < P"
    using b32val_bounds [OF cxs] by (simp_all add: P_def)
  have nth: "((xs @ [x]) @ ys) ! length xs = x"
    by (simp add: nth_append)
  have step: "increment_loop ((xs @ [x]) @ ys) (length (xs @ [x])) =
      (if int i < 31 then ((xs @ [x]) @ ys)[length xs := ENCODING ! nat (int i + 1)]
       else increment_loop (((xs @ [x]) @ ys)[length xs := ENCODING ! 0]) (length xs))"
    by (simp only: length_append_singleton increment_loop.simps nth i(3) Let_def)
  show ?case
  proof (cases "i < 31")
    case True
    let ?x' = "ENCODING ! Suc i"
    have res: "increment_loop ((xs @ [x]) @ ys) (length (xs @ [x])) = (xs @ [?x']) @ ys"
      unfolding step using True by (simp add: nat_add_distrib)
    have x': "?x' \<in> set ENCODING" "indexOf ENCODING [?x'] = int (Suc i)"
      using True by (simp_all add: ENCODING_nth_mem indexOf_ENCODING_nth)
    have val: "b32val (xs @ [?x']) = b32val (xs @ [x]) + 1"
      by (simp add: b32val_snoc x'(2) i(3))
    have "b32val (xs @ [x]) + 1 < 32 * P" "0 \<le> b32val (xs @ [x]) + 1"
      using v True by (simp_all add: b32val_snoc i(3))
    then have "(b32val (xs @ [x]) + 1) mod 32 ^ length (xs @ [x]) = b32val (xs @ [x]) + 1"
      by (simp add: P_def)
    with val res cxs x'(1) show ?thesis
      by (intro exI [of _ "xs @ [?x']"]) (simp add: canonical_iff)
  next
    case False
    with i(1) have i31: "i = 31" by simp
    let ?z = "ENCODING ! 0"
    have z: "?z \<in> set ENCODING" "indexOf ENCODING [?z] = 0"
      using ENCODING_nth_mem [of 0] indexOf_ENCODING_nth [of 0] by simp_all
    have "increment_loop ((xs @ [x]) @ ys) (length (xs @ [x])) =
        increment_loop (xs @ ?z # ys) (length xs)"
      unfolding step using False by simp
    moreover from snoc.IH [OF cxs, of "?z # ys"] obtain xs' where
      xs': "increment_loop (xs @ ?z # ys) (length xs) = xs' @ ?z # ys" "length xs' = length xs"
        "canonical xs'" "b32val xs' = (b32val xs + 1) mod P"
      by (auto simp: P_def)
    ultimately have res: "increment_loop ((xs @ [x]) @ ys) (length (xs @ [x])) = (xs' @ [?z]) @ ys"
      by simp
    have "b32val (xs' @ [?z]) = ((b32val xs + 1) mod P) * 32"
      by (simp add: b32val_snoc z(2) xs'(4))
    also have "\<dots> = ((b32val xs + 1) * 32) mod (P * 32)"
      by (rule mult_mod_left)
    also have "(b32val xs + 1) * 32 = b32val (xs @ [x]) + 1"
      by (simp add: b32val_snoc i(3) i31)
    also have "P * 32 = 32 ^ length (xs @ [x])"
      by (simp add: P_def)
    finally have val: "b32val (xs' @ [?z]) = (b32val (xs @ [x]) + 1) mod 32 ^ length (xs @ [x])" .
    from res val xs'(2,3) z(1) show ?thesis
      by (intro exI [of _ "xs' @ [?z]"]) (simp add: canonical_iff)
  qed
qed

lemma increment_loop_value:
  assumes "canonical r"
  shows "length (increment_loop r (length r)) = length r"
    and "canonical (increment_loop r (length r))"
    and "b32val (increment_loop r (length r)) = (b32val r + 1) mod 32 ^ length r"
  using increment_loop_spec [OF assms, of "[]"] by auto

lemma monotonic_next_same:
  assumes "0 \<le> t" "t \<le> TIME_MAX"
  shows "monotonic_next \<lparr>lastTime = t, lastRandom = r\<rparr> t bytes =
     (\<lparr>lastTime = t, lastRandom = increment_loop r (length r)\<rparr>,
      Inr (encodeTime_loop TIME_LENGTH t [] @ increment_loop r (length r)))"
  by (simp add: monotonic_next_def encodeTime_in_range(1) [OF assms])

lemma monotonic_next_reset:
  assumes "now \<noteq> lastTime st"
  shows "monotonic_next st now bytes =
     (\<lparr>lastTime = now, lastRandom = encodeRandom RANDOM_LENGTH bytes\<rparr>,
      case encodeTime now TIME_LENGTH of
        Inl e \<Rightarrow> Inl e
      | Inr t \<Rightarrow> Inr (t @ encodeRandom RANDOM_LENGTH bytes))"
  using assms by (simp add: monotonic_next_def Let_def split: sum.splits)

lemma js_lt_same_prefix: "js_lt (p @ r) (p @ s) = js_lt r s"
  using js_lt_append [of p p r s] by simp

lemma run_same_ms:
  assumes t: "0 \<le> t" "t \<le> TIME_MAX"
  shows "canonical r \<Longrightarrow> length r = 16 \<Longrightarrow> b32val r + int (length bs) < 32 ^ 16 \<Longrightarrow>
    \<exists>us. monotonic_run \<lparr>lastTime = t, lastRandom = r\<rparr> (map (Pair t) bs) = map Inr us \<and>
         length us = length bs \<and> sorted_wrt js_lt us \<and>
         list_all (\<lambda>u. length u = 26 \<and> canonical u) us \<and>
         (\<forall>u\<in>set us. js_lt (encodeTime_loop TIME_LENGTH t [] @ r) u)"
proof (induction bs arbitrary: r)
  case Nil
  then show ?case by simp
next
  case (Cons b bs)
  let ?tt = "encodeTime_loop TIME_LENGTH t []"
  let ?r' = "increment_loop r (length r)"
  have len': "length ?r' = 16" and can': "canonical ?r'"
    using increment_loop_value(1,2) [OF Cons.prems(1)] Cons.prems(2) by simp_all
  have "0 \<le> b32val r" using b32val_bounds [OF Cons.prems(1)] by simp
  with Cons.prems(3) have small: "0 \<le> b32val r + 1" "b32val r + 1 < 32 ^ 16"
    by simp_all
  have "b32val ?r' = (b32val r + 1) mod 32 ^ 16"
    using increment_loop_value(3) [OF Cons.prems(1)] Cons.prems(2) by simp
  with small have val': "b32val ?r' = b32val r + 1" by simp
  with Cons.prems(3) have "b32val ?r' + int (length bs) < 32 ^ 16" by simp
  from Cons.IH [OF can' len' this] obtain us where
    us: "monotonic_run \<lparr>lastTime = t, lastRandom = ?r'\<rparr> (map (Pair t) bs) = map Inr us"
      "length us = length bs" "sorted_wrt js_lt us"
      "list_all (\<lambda>u. length u = 26 \<and> canonical u) us"
      "\<forall>u\<in>set us. js_lt (?tt @ ?r') u"
    by blast
  have "js_lt r ?r'"
    using js_lt_b32val [of r ?r'] Cons.prems(1,2) len' can' val' by simp
  then have first: "js_lt (?tt @ r) (?tt @ ?r')"
    by (simp only: js_lt_same_prefix)
  have run: "monotonic_run \<lparr>lastTime = t, lastRandom = r\<rparr> (map (Pair t) (b # bs)) =
      map Inr ((?tt @ ?r') # us)"
    by (simp add: monotonic_next_same [OF t] us(1))
  have ulid: "length (?tt @ ?r') = 26 \<and> canonical (?tt @ ?r')"
    using encodeTime_in_range(2,3) [OF t] len' can' by (simp add: canonical_append)
  have above: "\<forall>u\<in>set ((?tt @ ?r') # us). js_lt (?tt @ r) u"
    using first us(5) js_lt_trans [OF first] by auto
  from run us(2,3,4,5) ulid above show ?case
    by (intro exI [of _ "(?tt @ ?r') # us"]) simp
qed

text \<open>
  C3, as amended. Let every clock read of a run of calls on one generator return the same
  millisecond \<open>t\<close> with \<open>0 \<le> t \<le> 2 ^ 48 - 1\<close>, let the first call of the run be the first
  one at that millisecond (the stored \<open>lastTime\<close> differs from \<open>t\<close>), and let the value
  of the random portion drawn by the first call plus the number of further calls stay
  below \<open>32 ^ 16\<close>. Then every call returns a 26-character identifier and the identifiers
  are strictly increasing in string order.
\<close>

theorem monotonic_same_ms_increasing:
  assumes "0 \<le> t" and "t \<le> 2 ^ 48 - 1" and "lastTime st \<noteq> t"
    and "b32val (encodeRandom RANDOM_LENGTH bytes0) + int (length bs) < 32 ^ 16"
  shows "\<exists>us. monotonic_run st ((t, bytes0) # map (Pair t) bs) = map Inr us \<and>
           length us = Suc (length bs) \<and> sorted_wrt js_lt us \<and>
           list_all (\<lambda>u. length u = 26 \<and> canonical u) us"
proof -
  have t: "0 \<le> t" "t \<le> TIME_MAX"
    using assms(1,2) by (simp_all add: TIME_MAX_def)
  let ?tt = "encodeTime_loop TIME_LENGTH t []"
  let ?r = "encodeRandom RANDOM_LENGTH bytes0"
  have r: "canonical ?r" "length ?r = 16"
    by (simp_all add: encodeRandom_canonical encodeRandom_length RANDOM_LENGTH_def)
  have first: "monotonic_next st t bytes0 = (\<lparr>lastTime = t, lastRandom = ?r\<rparr>, Inr (?tt @ ?r))"
    using assms(3) by (simp add: monotonic_next_reset encodeTime_in_range(1) [OF t])
  from run_same_ms [OF t r assms(4)] obtain us where
    us: "monotonic_run \<lparr>lastTime = t, lastRandom = ?r\<rparr> (map (Pair t) bs) = map Inr us"
      "length us = length bs" "sorted_wrt js_lt us"
      "list_all (\<lambda>u. length u = 26 \<and> canonical u) us"
      "\<forall>u\<in>set us. js_lt (?tt @ ?r) u"
    by blast
  have ulid: "length (?tt @ ?r) = 26 \<and> canonical (?tt @ ?r)"
    using encodeTime_in_range(2,3) [OF t] r by (simp add: canonical_append)
  have "monotonic_run st ((t, bytes0) # map (Pair t) bs) = map Inr ((?tt @ ?r) # us)"
    by (simp add: first us(1))
  with us(2,3,4,5) ulid show ?thesis
    by (intro exI [of _ "(?tt @ ?r) # us"]) simp
qed

theorem monotonic_same_ms_increasing_witness:
  "(0::int) \<le> 1469918176385 \<and> (1469918176385::int) \<le> 2 ^ 48 - 1 \<and>
   lastTime monotonic_init \<noteq> 1469918176385 \<and>
   b32val (encodeRandom RANDOM_LENGTH (\<lambda>i. 7)) + int (length [\<lambda>i::nat. 0 :: 8 word, \<lambda>i. 0]) < 32 ^ 16 \<and>
   (\<exists>us. monotonic_run monotonic_init
            ((1469918176385, \<lambda>i. 7) # map (Pair 1469918176385) [\<lambda>i::nat. 0 :: 8 word, \<lambda>i. 0]) = map Inr us \<and>
         length us = Suc (length [\<lambda>i::nat. 0 :: 8 word, \<lambda>i. 0]) \<and> sorted_wrt js_lt us \<and>
         list_all (\<lambda>u. length u = 26 \<and> canonical u) us)"
proof -
  have h1: "(0::int) \<le> 1469918176385" by simp
  have h2: "(1469918176385::int) \<le> 2 ^ 48 - 1" by simp
  have h3: "lastTime monotonic_init \<noteq> 1469918176385" by (simp add: monotonic_init_def)
  have v: "b32val (encodeRandom RANDOM_LENGTH (\<lambda>i. 7)) < 32 ^ 16 - 2" by code_simp
  have l: "int (length [\<lambda>i::nat. 0 :: 8 word, \<lambda>i. 0]) = 2" by simp
  have h4: "b32val (encodeRandom RANDOM_LENGTH (\<lambda>i. 7)) +
      int (length [\<lambda>i::nat. 0 :: 8 word, \<lambda>i. 0]) < 32 ^ 16"
    unfolding l using v by linarith
  note c = monotonic_same_ms_increasing [OF h1 h2 h3 h4]
  show ?thesis
    by (rule conjI [OF h1 conjI [OF h2 conjI [OF h3 conjI [OF h4 c]]]])
qed

text \<open>
  C3 as stated fails in three ways. When the first call of a millisecond draws the
  greatest random portion, the second call wraps it to the least one and returns a
  smaller identifier. On a new generator whose clock reads 0, \<open>lastTime\<close> already is 0:
  no random portion is ever drawn and every call returns the same ten characters. A
  clock read outside \<open>0 .. 2 ^ 48 - 1\<close> gives a \<open>RangeError\<close> instead of an identifier.
\<close>

theorem monotonic_same_ms_counterexample:
  "monotonic_run monotonic_init [(1469918176385, \<lambda>i. 255), (1469918176385, \<lambda>i. 255)] =
     [Inr ''01ARYZ6S41ZZZZZZZZZZZZZZZZ'', Inr ''01ARYZ6S410000000000000000'']
   \<and> \<not> js_lt ''01ARYZ6S41ZZZZZZZZZZZZZZZZ'' ''01ARYZ6S410000000000000000''
   \<and> monotonic_run monotonic_init [(0, \<lambda>i. 255), (0, \<lambda>i. 255)] =
     [Inr ''0000000000'', Inr ''0000000000'']
   \<and> \<not> js_lt ''0000000000'' ''0000000000''
   \<and> monotonic_run monotonic_init [(- 1, \<lambda>i. 255), (- 1, \<lambda>i. 255)] =
     [Inl (RangeError (- 1)), Inl (RangeError (- 1))]"
  by code_simp

text \<open>
  C4. The first call of a new generator at millisecond 1469918176385 draws bytes that
  all stand for the greatest symbol and leaves the random portion at its maximum. The
  next call in the same millisecond raises nothing: it stores and returns the all-zero
  portion, an identifier below the previous one.
\<close>

theorem monotonic_overflow_wraps:
  "monotonic_next monotonic_init 1469918176385 (\<lambda>i. 255) =
     (\<lparr>lastTime = 1469918176385, lastRandom = ''ZZZZZZZZZZZZZZZZ''\<rparr>,
      Inr ''01ARYZ6S41ZZZZZZZZZZZZZZZZ'')
   \<and> monotonic_next \<lparr>lastTime = 1469918176385, lastRandom = ''ZZZZZZZZZZZZZZZZ''\<rparr>
       1469918176385 (\<lambda>i. 0) =
     (\<lparr>lastTime = 1469918176385, lastRandom = ''0000000000000000''\<rparr>,
      Inr ''01ARYZ6S410000000000000000'')
   \<and> js_lt ''01ARYZ6S410000000000000000'' ''01ARYZ6S41ZZZZZZZZZZZZZZZZ''"
  by code_simp

lemma monotonic_next_lastTime: "lastTime (fst (monotonic_next st now bytes)) = now"
  by (simp add: monotonic_next_def Let_def)

lemma encodeTime_Inr:
  assumes "encodeTime t TIME_LENGTH = Inr tt"
  shows "0 \<le> t" and "t \<le> TIME_MAX" and "tt = encodeTime_loop TIME_LENGTH t []"
  using assms by (auto simp: encodeTime_def split: if_splits)

text \<open>
  C10, as amended. Let the previous call have returned the identifier \<open>prev\<close>, leaving
  the state \<open>st\<close>, and let the clock now read \<open>now\<close> with \<open>0 \<le> now < lastTime st\<close>. Then the
  call raises nothing, stores \<open>now\<close> and a fresh random portion, and returns a
  26-character identifier below \<open>prev\<close> in string order. From any other state whose
  \<open>lastTime\<close> differs from \<open>now\<close> the same call gives the same state and the same result, so
  nothing records that the clock went back.
\<close>

theorem monotonic_clock_backwards:
  assumes "monotonic_next st0 t0 bytes0 = (st, Inr prev)"
    and "0 \<le> now" and "now < lastTime st"
  shows "\<exists>u. monotonic_next st now bytes =
             (\<lparr>lastTime = now, lastRandom = encodeRandom RANDOM_LENGTH bytes\<rparr>, Inr u) \<and>
           length u = 26 \<and> js_lt u prev \<and>
           (\<forall>st'. lastTime st' \<noteq> now \<longrightarrow>
                  monotonic_next st' now bytes = monotonic_next st now bytes)"
proof -
  have lt0: "lastTime st = t0"
    using monotonic_next_lastTime [of st0 t0 bytes0] assms(1) by simp
  from assms(1) obtain tt0 where enc0: "encodeTime t0 TIME_LENGTH = Inr tt0"
    and prev: "prev = tt0 @ lastRandom st"
    by (auto simp: monotonic_next_def Let_def split: sum.splits)
  note t0 = encodeTime_Inr [OF enc0]
  have now: "0 \<le> now" "now \<le> TIME_MAX"
    using assms(2,3) lt0 t0(2) by simp_all
  let ?tn = "encodeTime_loop TIME_LENGTH now []"
  let ?r = "encodeRandom RANDOM_LENGTH bytes"
  let ?u = "?tn @ ?r"
  have neq: "now \<noteq> lastTime st" using assms(3) by simp
  have call: "monotonic_next st now bytes = (\<lparr>lastTime = now, lastRandom = ?r\<rparr>, Inr ?u)"
    by (simp add: monotonic_next_reset [OF neq] encodeTime_in_range(1) [OF now])
  have len: "length ?u = 26"
    by (simp add: encodeTime_in_range(2) [OF now] encodeRandom_length RANDOM_LENGTH_def)
  have "b32val ?tn < b32val tt0"
    using encodeTime_in_range(4) [OF now] encodeTime_in_range(4) [OF t0(1,2)] t0(3) assms(3) lt0
    by simp
  moreover have same: "length ?tn = length tt0"
    using encodeTime_in_range(2) [OF now] encodeTime_in_range(2) [OF t0(1,2)] t0(3) by simp
  moreover have "canonical ?tn" "canonical tt0"
    using encodeTime_in_range(3) [OF now] encodeTime_in_range(3) [OF t0(1,2)] t0(3) by simp_all
  ultimately have less: "js_lt ?tn tt0"
    using js_lt_b32val [of ?tn tt0] by simp
  then have "?tn \<noteq> tt0" using js_lt_irrefl by auto
  with less have below: "js_lt ?u prev"
    unfolding prev by (simp add: js_lt_append [OF same])
  have other: "\<forall>st'. lastTime st' \<noteq> now \<longrightarrow>
      monotonic_next st' now bytes = monotonic_next st now bytes"
    using neq by (simp add: monotonic_next_reset)
  from call len below other show ?thesis by blast
qed

theorem monotonic_clock_backwards_witness:
  "monotonic_next monotonic_init 5 (\<lambda>i. 0) =
     (\<lparr>lastTime = 5, lastRandom = ''0000000000000000''\<rparr>, Inr ''00000000050000000000000000'') \<and>
   (0::int) \<le> 4 \<and> 4 < lastTime \<lparr>lastTime = 5, lastRandom = ''0000000000000000''\<rparr> \<and>
   (\<exists>u. monotonic_next \<lparr>lastTime = 5, lastRandom = ''0000000000000000''\<rparr> 4 (\<lambda>i. 255) =
          (\<lparr>lastTime = 4, lastRandom = encodeRandom RANDOM_LENGTH (\<lambda>i. 255)\<rparr>, Inr u) \<and>
        length u = 26 \<and> js_lt u ''00000000050000000000000000'' \<and>
        (\<forall>st'. lastTime st' \<noteq> 4 \<longrightarrow>
               monotonic_next st' 4 (\<lambda>i. 255) =
               monotonic_next \<lparr>lastTime = 5, lastRandom = ''0000000000000000''\<rparr> 4 (\<lambda>i. 255)))"
proof -
  have h1: "monotonic_next monotonic_init 5 (\<lambda>i. 0) =
     (\<lparr>lastTime = 5, lastRandom = ''0000000000000000''\<rparr>, Inr ''00000000050000000000000000'')"
    by code_simp
  have h2: "(0::int) \<le> 4" by simp
  have h3: "4 < lastTime \<lparr>lastTime = 5, lastRandom = ''0000000000000000''\<rparr>" by simp
  note c = monotonic_clock_backwards [OF h1 h2 h3, of "\<lambda>i. 255"]
  show ?thesis
    by (rule conjI [OF h1 conjI [OF h2 conjI [OF h3 c]]])
qed

text \<open>
  C10 as stated promises that no error is raised whenever the clock reads less than
  \<open>lastTime\<close>. After a call at millisecond 5 a clock read of \<open>-1\<close> takes the reset branch
  and stores \<open>-1\<close>, and then \<open>encodeTime\<close> raises the \<open>RangeError\<close>.
\<close>

theorem monotonic_clock_backwards_counterexample:
  "monotonic_next monotonic_init 5 (\<lambda>i. 0) =
     (\<lparr>lastTime = 5, lastRandom = ''0000000000000000''\<rparr>, Inr ''00000000050000000000000000'')
   \<and> monotonic_next \<lparr>lastTime = 5, lastRandom = ''0000000000000000''\<rparr> (- 1) (\<lambda>i. 0) =
     (\<lparr>lastTime = - 1, lastRandom = ''0000000000000000''\<rparr>, Inl (RangeError (- 1)))"
  by code_simp

section \<open>Regular expressions of the Urn component\<close>

lemma match_atoms_one:
  "match_atoms ic ((cls, Suc 0, Suc 0) # r) s =
     (case s of [] \<Rightarrow> False | c # t \<Rightarrow> in_class ic cls c \<and> match_atoms ic r t)"
  by (cases s) simp_all

lemma match_atoms_last:
  "match_atoms ic [(cls, lo, hi)] s =
     (lo \<le> length s \<and> length s \<le> hi \<and> list_all (in_class ic cls) s)"
proof
  assume "match_atoms ic [(cls, lo, hi)] s"
  then obtain k where k: "lo \<le> k" "k \<le> hi" "k \<le> length s"
      "list_all (in_class ic cls) (take k s)" "drop k s = []"
    by auto
  from k(3,5) have "k = length s" by simp
  with k show "lo \<le> length s \<and> length s \<le> hi \<and> list_all (in_class ic cls) s" by simp
next
  assume "lo \<le> length s \<and> length s \<le> hi \<and> list_all (in_class ic cls) s"
  then show "match_atoms ic [(cls, lo, hi)] s"
    by (auto intro!: bexI [of _ "length s"])
qed

lemma in_class_lower: "in_class False [Rng CHR ''a'' CHR ''z''] c = is_lower c"
  by (simp add: in_class_def is_lower_def)

lemma in_class_lower_digit:
  "in_class False [Rng CHR ''a'' CHR ''z'', Rng CHR ''0'' CHR ''9''] =
     (\<lambda>c. is_lower c \<or> is_digit c)"
  by (rule ext) (simp add: in_class_def is_lower_def is_digit_def)

lemma in_class_lower_digit_hyphen:
  "in_class False [Rng CHR ''a'' CHR ''z'', Rng CHR ''0'' CHR ''9'', Chr CHR ''-''] =
     (\<lambda>c. is_lower c \<or> is_digit c \<or> c = CHR ''-'')"
  by (rule ext) (simp add: in_class_def is_lower_def is_digit_def)

lemma test_APP_PATTERN: "test APP_PATTERN s = spec_app_name s"
  by (simp add: test_def APP_PATTERN_def spec_app_name_def match_atoms_one match_atoms_last
      in_class_lower in_class_lower_digit del: match_atoms.simps split: list.splits)

lemma test_ENTITY_PATTERN: "test ENTITY_PATTERN s = spec_entity_name s"
  by (simp add: test_def ENTITY_PATTERN_def spec_entity_name_def match_atoms_one match_atoms_last
      in_class_lower in_class_lower_digit_hyphen del: match_atoms.simps split: list.splits)

lemma Ulid_generate_cases:
  "Ulid_generate ts now bytes =
     (let time = (case ts of Some t \<Rightarrow> t | None \<Rightarrow> now) in
      if time < 0 \<or> 2 ^ 48 - 1 < time then Inl (RangeError time)
      else Inr (encodeTime_loop TIME_LENGTH time [] @ encodeRandom RANDOM_LENGTH bytes))"
  by (simp add: Ulid_generate_def encodeTime_def TIME_MAX_def Let_def)

text \<open>
  C7, as amended. \<open>Urn.create\<close> fails with \<open>INVALID_APP\<close> and the app value exactly when the
  app is not a lower-case letter followed by at most 31 lower-case letters or digits;
  with a valid app it fails with \<open>INVALID_ENTITY\<close> and the entity value exactly when the
  entity is not a lower-case letter followed by at most 63 lower-case letters, digits or
  hyphens. With both valid it returns \<open>app:entity:id\<close> for the identifier of the options
  when there is one. Without one it takes the timestamp of the options, or the clock, and
  returns \<open>app:entity:\<close> followed by the new identifier when that time is within
  \<open>0 .. 2 ^ 48 - 1\<close>; outside it the \<open>RangeError\<close> of the encoder is the result.
  \<open>create CHAI person\<close> fails with \<open>INVALID_APP\<close>.
\<close>

theorem Urn_create_cases:
  "Urn_create a e options now bytes =
     (if \<not> spec_app_name a then Inl (UrnError INVALID_APP a)
      else if \<not> spec_entity_name e then Inl (UrnError INVALID_ENTITY e)
      else
        (case Option.bind options opt_id of
           Some i \<Rightarrow> Inr (a @ '':'' @ e @ '':'' @ i)
         | None \<Rightarrow>
             (let time = (case Option.bind options opt_timestamp of Some t \<Rightarrow> t | None \<Rightarrow> now) in
              if time < 0 \<or> 2 ^ 48 - 1 < time then Inl (RangeError time)
              else Inr (a @ '':'' @ e @ '':'' @
                        encodeTime_loop TIME_LENGTH time [] @ encodeRandom RANDOM_LENGTH bytes))))
   \<and> Urn_create ''CHAI'' ''person'' None now bytes = Inl (UrnError INVALID_APP ''CHAI'')"
proof
  show "Urn_create a e options now bytes =
     (if \<not> spec_app_name a then Inl (UrnError INVALID_APP a)
      else if \<not> spec_entity_name e then Inl (UrnError INVALID_ENTITY e)
      else
        (case Option.bind options opt_id of
           Some i \<Rightarrow> Inr (a @ '':'' @ e @ '':'' @ i)
         | None \<Rightarrow>
             (let time = (case Option.bind options opt_timestamp of Some t \<Rightarrow> t | None \<Rightarrow> now) in
              if time < 0 \<or> 2 ^ 48 - 1 < time then Inl (RangeError time)
              else Inr (a @ '':'' @ e @ '':'' @
                        encodeTime_loop TIME_LENGTH time [] @ encodeRandom RANDOM_LENGTH bytes))))"
    by (cases options)
      (simp_all add: Urn_create_def test_APP_PATTERN test_ENTITY_PATTERN Ulid_generate_cases Let_def
        split: option.splits)
  have "\<not> spec_app_name ''CHAI''"
    by (simp add: spec_app_name_def is_lower_def code_unit_def)
  then show "Urn_create ''CHAI'' ''person'' None now bytes = Inl (UrnError INVALID_APP ''CHAI'')"
    by (simp add: Urn_create_def test_APP_PATTERN)
qed

text \<open>
  C7 as stated lets \<open>create\<close> return a string whenever both names are valid. With valid
  names, no identifier and the timestamp \<open>-1\<close> it raises the \<open>RangeError\<close> of the encoder.
\<close>

theorem Urn_create_counterexample:
  "test APP_PATTERN ''chai'' \<and> test ENTITY_PATTERN ''person'' \<and>
   Urn_create ''chai'' ''person'' (Some \<lparr>opt_timestamp = Some (- 1), opt_id = None\<rparr>) 0 (\<lambda>i. 0) =
     Inl (RangeError (- 1))"
  by code_simp

text \<open>
  C1. The source documents \<open>Urn.isValid\<close> as rejecting \<open>CHAI:person:01ARZ3NDEKTSV4RRFFQ69G5FAV\<close>
  because the app must be lower case. \<open>URN_PATTERN\<close> carries the flag \<open>i\<close> for the whole
  expression, so the string is accepted, although its app segment is not an app name.
\<close>

theorem Urn_isValid_accepts_uppercase_app:
  "Urn_isValid ''CHAI:person:01ARZ3NDEKTSV4RRFFQ69G5FAV'' \<and> \<not> test APP_PATTERN ''CHAI''"
  by code_simp

text \<open>
  C2. The same string is accepted and parsed into its three components, and \<open>Urn.create\<close>
  on these components does not return the string: it fails with \<open>INVALID_APP\<close>.
\<close>

theorem Urn_roundtrip_fails_on_uppercase_app:
  "Urn_isValid ''CHAI:person:01ARZ3NDEKTSV4RRFFQ69G5FAV'' \<and>
   Urn_parse ''CHAI:person:01ARZ3NDEKTSV4RRFFQ69G5FAV'' =
     Inr \<lparr>app = Some ''CHAI'', entity = Some ''person'', id' = Some ''01ARZ3NDEKTSV4RRFFQ69G5FAV''\<rparr> \<and>
   Urn_create ''CHAI'' ''person''
       (Some \<lparr>opt_timestamp = None, opt_id = Some ''01ARZ3NDEKTSV4RRFFQ69G5FAV''\<rparr>) 0 (\<lambda>i. 0) =
     Inl (UrnError INVALID_APP ''CHAI'')"
  by code_simp

section \<open>The flag i\<close>

lemma lower_roundtrip_all:
  "list_all (\<lambda>a. toLowerCase_char (toUpperCase_char a) = a) ''abcdefghijklmnopqrstuvwxyz''"
  by (simp add: toLowerCase_char_def toUpperCase_char_def)

lemma upper_roundtrip_all:
  "list_all (\<lambda>c. toUpperCase_char (toLowerCase_char c) = c) ''ABCDEFGHIJKLMNOPQRSTUVWXYZ''"
  by (simp add: toLowerCase_char_def toUpperCase_char_def)

lemma toUpperCase_char_other:
  "c \<notin> set ''abcdefghijklmnopqrstuvwxyz'' \<Longrightarrow> toUpperCase_char c = c"
proof -
  assume "c \<notin> set ''abcdefghijklmnopqrstuvwxyz''"
  moreover have "length ''abcdefghijklmnopqrstuvwxyz'' = length ''ABCDEFGHIJKLMNOPQRSTUVWXYZ''"
    by simp
  ultimately
  have "map_of (zip ''abcdefghijklmnopqrstuvwxyz'' ''ABCDEFGHIJKLMNOPQRSTUVWXYZ'') c = None"
    by (simp only: map_of_zip_is_None not_False_eq_True)
  then show ?thesis by (simp only: toUpperCase_char_def option.case)
qed

lemma toLowerCase_char_other:
  "c \<notin> set ''ABCDEFGHIJKLMNOPQRSTUVWXYZ'' \<Longrightarrow> toLowerCase_char c = c"
proof -
  assume "c \<notin> set ''ABCDEFGHIJKLMNOPQRSTUVWXYZ''"
  moreover have "length ''ABCDEFGHIJKLMNOPQRSTUVWXYZ'' = length ''abcdefghijklmnopqrstuvwxyz''"
    by simp
  ultimately
  have "map_of (zip ''ABCDEFGHIJKLMNOPQRSTUVWXYZ'' ''abcdefghijklmnopqrstuvwxyz'') c = None"
    by (simp only: map_of_zip_is_None not_False_eq_True)
  then show ?thesis by (simp only: toLowerCase_char_def option.case)
qed

lemma toUpperCase_toLowerCase: "toUpperCase_char (toLowerCase_char c) = toUpperCase_char c"
proof (cases "c \<in> set ''ABCDEFGHIJKLMNOPQRSTUVWXYZ''")
  case True
  then have "toUpperCase_char (toLowerCase_char c) = c"
    using upper_roundtrip_all by (simp only: list_all_iff)
  moreover from True have "toUpperCase_char c = c"
    using upper_fixed_all by (simp only: list_all_iff)
  ultimately show ?thesis by simp
next
  case False
  then have "toLowerCase_char c = c" by (rule toLowerCase_char_other)
  then show ?thesis by (simp only:)
qed

lemma same_canonical_form:
  assumes "toUpperCase_char a = toUpperCase_char c"
  shows "a = c \<or> a = toUpperCase_char c \<or> a = toLowerCase_char c"
proof (cases "a \<in> set ''abcdefghijklmnopqrstuvwxyz''")
  case False
  then have "toUpperCase_char a = a" by (rule toUpperCase_char_other)
  with assms show ?thesis by simp
next
  case True
  then have "toLowerCase_char (toUpperCase_char a) = a"
    using lower_roundtrip_all by (simp only: list_all_iff)
  with assms have a: "a = toLowerCase_char (toUpperCase_char c)" by simp
  show ?thesis
  proof (cases "c \<in> set ''abcdefghijklmnopqrstuvwxyz''")
    case True
    then have "toLowerCase_char (toUpperCase_char c) = c"
      using lower_roundtrip_all by (simp only: list_all_iff)
    with a show ?thesis by simp
  next
    case False
    then have "toUpperCase_char c = c" by (rule toUpperCase_char_other)
    with a show ?thesis by simp
  qed
qed

text \<open>
  With the flag \<open>i\<close> a character matches a class exactly when some character with the
  same canonical (upper-case) form is a member of the class, which is the rule of the
  language for case-insensitive matching.
\<close>

lemma in_class_ignoreCase:
  "in_class True cls c = (\<exists>a. toUpperCase_char a = toUpperCase_char c \<and> in_class False cls a)"
proof -
  have split: "in_class True cls c =
      (in_class False cls c \<or> in_class False cls (toUpperCase_char c) \<or>
       in_class False cls (toLowerCase_char c))"
    by (auto simp: in_class_def list_ex_iff)
  show ?thesis
  proof
    assume "in_class True cls c"
    with split consider "in_class False cls c" | "in_class False cls (toUpperCase_char c)"
      | "in_class False cls (toLowerCase_char c)"
      by blast
    then show "\<exists>a. toUpperCase_char a = toUpperCase_char c \<and> in_class False cls a"
    proof cases
      case 1
      then show ?thesis by blast
    next
      case 2
      with toUpperCase_char_idem [of c] show ?thesis by blast
    next
      case 3
      with toUpperCase_toLowerCase [of c] show ?thesis by blast
    qed
  next
    assume "\<exists>a. toUpperCase_char a = toUpperCase_char c \<and> in_class False cls a"
    then obtain a where a: "toUpperCase_char a = toUpperCase_char c" "in_class False cls a"
      by blast
    from same_canonical_form [OF a(1)] a(2) split show "in_class True cls c"
      by auto
  qed
qed

section \<open>Parsing an accepted URN\<close>

lemma match_atoms_Cons:
  "match_atoms ic ((cls, lo, hi) # r) s =
     (\<exists>p t. s = p @ t \<and> lo \<le> length p \<and> length p \<le> hi \<and>
            list_all (in_class ic cls) p \<and> match_atoms ic r t)"
proof
  assume "match_atoms ic ((cls, lo, hi) # r) s"
  then obtain k where k: "lo \<le> k" "k \<le> hi" "k \<le> length s"
      "list_all (in_class ic cls) (take k s)" "match_atoms ic r (drop k s)"
    by auto
  show "\<exists>p t. s = p @ t \<and> lo \<le> length p \<and> length p \<le> hi \<and>
            list_all (in_class ic cls) p \<and> match_atoms ic r t"
    using k by (intro exI [of _ "take k s"] exI [of _ "drop k s"]) simp
next
  assume "\<exists>p t. s = p @ t \<and> lo \<le> length p \<and> length p \<le> hi \<and>
            list_all (in_class ic cls) p \<and> match_atoms ic r t"
  then obtain p t where "s = p @ t" "lo \<le> length p" "length p \<le> hi"
      "list_all (in_class ic cls) p" "match_atoms ic r t"
    by blast
  then show "match_atoms ic ((cls, lo, hi) # r) s"
    by (auto intro!: bexI [of _ "length p"])
qed

lemma split_no_sep: "sep \<notin> set a \<Longrightarrow> split sep a = [a]"
  by (induction a) auto

lemma split_append: "sep \<notin> set a \<Longrightarrow> split sep (a @ sep # rest) = a # split sep rest"
  by (induction a) auto

lemma colon_not_in_classes:
  "\<not> in_class True [Rng CHR ''a'' CHR ''z''] CHR '':''"
  "\<not> in_class True [Rng CHR ''a'' CHR ''z'', Rng CHR ''0'' CHR ''9''] CHR '':''"
  "\<not> in_class True [Rng CHR ''a'' CHR ''z'', Rng CHR ''0'' CHR ''9'', Chr CHR ''-''] CHR '':''"
  "\<not> in_class True [Rng CHR ''0'' CHR ''9'', Rng CHR ''A'' CHR ''H'', Chr CHR ''J'', Chr CHR ''K'',
      Chr CHR ''M'', Chr CHR ''N'', Rng CHR ''P'' CHR ''T'', Rng CHR ''V'' CHR ''Z''] CHR '':''"
  by code_simp+

lemma no_colon: "\<not> in_class ic cls CHR '':'' \<Longrightarrow> list_all (in_class ic cls) p \<Longrightarrow> CHR '':'' \<notin> set p"
  by (auto simp: list_all_iff)

lemma toUpperCase_char_range:
  "toUpperCase_char c = c \<or> toUpperCase_char c \<in> set ''ABCDEFGHIJKLMNOPQRSTUVWXYZ''"
proof (cases "map_of (zip ''abcdefghijklmnopqrstuvwxyz'' ''ABCDEFGHIJKLMNOPQRSTUVWXYZ'') c")
  case None
  then show ?thesis by (simp only: toUpperCase_char_def option.case simp_thms)
next
  case (Some u)
  then have "u \<in> set ''ABCDEFGHIJKLMNOPQRSTUVWXYZ''"
    by (metis map_of_SomeD set_zip_rightD)
  moreover from Some have "toUpperCase_char c = u"
    by (simp only: toUpperCase_char_def option.case)
  ultimately show ?thesis by (simp only: simp_thms)
qed

lemma in_class_colon: "in_class True [Chr CHR '':''] c = (c = CHR '':'')"
proof -
  have up: "toUpperCase_char CHR '':'' = CHR '':''"
    by (simp add: toUpperCase_char_def)
  have notin: "CHR '':'' \<notin> set ''ABCDEFGHIJKLMNOPQRSTUVWXYZ''"
    by simp
  have "in_class True [Chr CHR '':''] c = (toUpperCase_char c = CHR '':'')"
    unfolding in_class_ignoreCase using up by (auto simp: in_class_def)
  also have "\<dots> = (c = CHR '':'')"
    using toUpperCase_char_range [of c] notin up by metis
  finally show ?thesis .
qed

lemma match_atoms_ConsE:
  assumes "match_atoms ic ((cls, lo, hi) # r) s"
  obtains p t where "s = p @ t" and "lo \<le> length p" and "length p \<le> hi"
    and "list_all (in_class ic cls) p" and "match_atoms ic r t"
  using assms unfolding match_atoms_Cons by blast

lemma Urn_isValid_parts:
  assumes "Urn_isValid u"
  obtains a e i where "u = a @ '':'' @ e @ '':'' @ i"
    and "CHR '':'' \<notin> set a" and "CHR '':'' \<notin> set e" and "CHR '':'' \<notin> set i"
    and "length i = 26"
proof -
  let ?L = "[Rng CHR ''a'' CHR ''z'']"
  let ?LD = "[Rng CHR ''a'' CHR ''z'', Rng CHR ''0'' CHR ''9'']"
  let ?LDH = "[Rng CHR ''a'' CHR ''z'', Rng CHR ''0'' CHR ''9'', Chr CHR ''-'']"
  let ?U = "[Rng CHR ''0'' CHR ''9'', Rng CHR ''A'' CHR ''H'', Chr CHR ''J'', Chr CHR ''K'',
      Chr CHR ''M'', Chr CHR ''N'', Rng CHR ''P'' CHR ''T'', Rng CHR ''V'' CHR ''Z'']"
  from assms have "match_atoms True
      [(?L, 1, 1), (?LD, 0, 31), ([Chr CHR '':''], 1, 1), (?L, 1, 1), (?LDH, 0, 63),
       ([Chr CHR '':''], 1, 1), (?U, 26, 26)] u"
    by (simp add: Urn_isValid_def test_def URN_PATTERN_def ULID_PATTERN_def del: match_atoms.simps)
  then obtain p1 t1 where s1: "u = p1 @ t1" and p1: "list_all (in_class True ?L) p1"
    and m1: "match_atoms True [(?LD, 0, 31), ([Chr CHR '':''], 1, 1), (?L, 1, 1), (?LDH, 0, 63),
       ([Chr CHR '':''], 1, 1), (?U, 26, 26)] t1"
    by (rule match_atoms_ConsE)
  from m1 obtain p2 t2 where s2: "t1 = p2 @ t2" and p2: "list_all (in_class True ?LD) p2"
    and m2: "match_atoms True [([Chr CHR '':''], 1, 1), (?L, 1, 1), (?LDH, 0, 63),
       ([Chr CHR '':''], 1, 1), (?U, 26, 26)] t2"
    by (rule match_atoms_ConsE)
  from m2 obtain p3 t3 where s3: "t2 = p3 @ t3"
    and l3: "1 \<le> length p3" "length p3 \<le> 1"
    and q3: "list_all (in_class True [Chr CHR '':'']) p3"
    and m3: "match_atoms True [(?L, 1, 1), (?LDH, 0, 63), ([Chr CHR '':''], 1, 1), (?U, 26, 26)] t3"
    by (rule match_atoms_ConsE)
  from m3 obtain p4 t4 where s4: "t3 = p4 @ t4" and p4: "list_all (in_class True ?L) p4"
    and m4: "match_atoms True [(?LDH, 0, 63), ([Chr CHR '':''], 1, 1), (?U, 26, 26)] t4"
    by (rule match_atoms_ConsE)
  from m4 obtain p5 t5 where s5: "t4 = p5 @ t5" and p5: "list_all (in_class True ?LDH) p5"
    and m5: "match_atoms True [([Chr CHR '':''], 1, 1), (?U, 26, 26)] t5"
    by (rule match_atoms_ConsE)
  from m5 obtain p6 t6 where s6: "t5 = p6 @ t6"
    and l6: "1 \<le> length p6" "length p6 \<le> 1"
    and q6: "list_all (in_class True [Chr CHR '':'']) p6"
    and m6: "match_atoms True [(?U, 26, 26)] t6"
    by (rule match_atoms_ConsE)
  from m6 have l7: "26 \<le> length t6" "length t6 \<le> 26" and q7: "list_all (in_class True ?U) t6"
    unfolding match_atoms_last by simp_all
  define p7 where "p7 = t6"
  have u: "u = p1 @ p2 @ p3 @ p4 @ p5 @ p6 @ p7"
    by (simp only: s1 s2 s3 s4 s5 s6 p7_def)
  have p3: "length p3 = 1" "list_all (in_class True [Chr CHR '':'']) p3"
    using l3 q3 by simp_all
  have p6: "length p6 = 1" "list_all (in_class True [Chr CHR '':'']) p6"
    using l6 q6 by simp_all
  have p7: "length p7 = 26" "list_all (in_class True ?U) p7"
    using l7 q7 by (simp_all add: p7_def)
  from p3 have c3: "p3 = '':''"
    by (cases p3) (simp_all add: in_class_colon)
  from p6 have c6: "p6 = '':''"
    by (cases p6) (simp_all add: in_class_colon)
  note nc = colon_not_in_classes
  have a: "CHR '':'' \<notin> set (p1 @ p2)"
    using no_colon [OF nc(1) p1] no_colon [OF nc(2) p2] by simp
  have e: "CHR '':'' \<notin> set (p4 @ p5)"
    using no_colon [OF nc(1) p4] no_colon [OF nc(3) p5] by simp
  have i: "CHR '':'' \<notin> set p7"
    using no_colon [OF nc(4) p7(2)] .
  have "u = (p1 @ p2) @ '':'' @ (p4 @ p5) @ '':'' @ p7"
    by (simp add: u c3 c6)
  then show thesis using a e i p7(1) by (rule that)
qed

text \<open>
  Every string \<open>Urn.isValid\<close> accepts is parsed into exactly three components that, joined
  by colons, give the string back; and \<open>Urn.create\<close> on these components returns the
  string whenever the app and the entity pass the patterns \<open>create\<close> checks. The round
  trip thus fails only where \<open>isValid\<close> accepts a name that \<open>create\<close> rejects.
\<close>

lemma Urn_parse_create:
  assumes "Urn_isValid u"
  shows "\<exists>a e i. Urn_parse u = Inr \<lparr>app = Some a, entity = Some e, id' = Some i\<rparr> \<and>
           u = a @ '':'' @ e @ '':'' @ i \<and>
           (test APP_PATTERN a \<and> test ENTITY_PATTERN e \<longrightarrow>
              Urn_create a e (Some \<lparr>opt_timestamp = ts, opt_id = Some i\<rparr>) now bytes = Inr u)"
proof -
  from assms obtain a e i where u: "u = a @ '':'' @ e @ '':'' @ i"
    and nc: "CHR '':'' \<notin> set a" "CHR '':'' \<notin> set e" "CHR '':'' \<notin> set i"
    by (rule Urn_isValid_parts)
  have "split CHR '':'' u = [a, e, i]"
    unfolding u using nc by (simp add: split_append split_no_sep)
  then have "Urn_parse u = Inr \<lparr>app = Some a, entity = Some e, id' = Some i\<rparr>"
    using assms by (simp add: Urn_parse_def nth_opt_def)
  moreover have "test APP_PATTERN a \<and> test ENTITY_PATTERN e \<longrightarrow>
      Urn_create a e (Some \<lparr>opt_timestamp = ts, opt_id = Some i\<rparr>) now bytes = Inr u"
    by (simp add: Urn_create_def u)
  ultimately show ?thesis using u by blast
qed

end
